theory Spec2Isabelle
  imports Main
begin

section \<open>JavaScript values, errors and strings\<close>

text \<open>
  The snippets of the tutorial corpus are plain JavaScript over \<open>fetch\<close>. The values they
  handle are modelled by one datatype: \<open>undefined\<close>, \<open>null\<close>, booleans, numbers (the
  integers: ids, status codes, lengths), strings, an \<open>AbortSignal\<close> (given by the time on the
  clock at which it becomes aborted, if ever), arrays and plain objects (their properties in
  insertion order).
\<close>

datatype jsval =
    JUndefined
  | JNull
  | JBool bool
  | JNum int
  | JStr string
  | JSignal "int option"
  | JArr "jsval list"
  | JObj "(string \<times> jsval) list"

text \<open>
  What a \<open>throw\<close> or a rejected promise carries: an \<open>Error\<close>-like object with its
  \<open>name\<close> and \<open>message\<close>, or any other value.
\<close>

datatype thrown =
    Err (err_name: string) (err_message: string)
  | NonError jsval

type_synonym 'a result = "thrown + 'a"

fun digit_char :: "nat \<Rightarrow> char" where
  "digit_char n = char_of (48 + n)"

fun string_of_nat :: "nat \<Rightarrow> string" where
  "string_of_nat n =
     (if n < 10 then [digit_char n] else string_of_nat (n div 10) @ [digit_char (n mod 10)])"

declare string_of_nat.simps [simp del]

definition string_of_int :: "int \<Rightarrow> string" where
  "string_of_int i = (if i < 0 then CHR ''-'' # string_of_nat (nat (- i)) else string_of_nat (nat i))"

text \<open>\<open>s.startsWith(p)\<close> and \<open>s.includes(p)\<close>.\<close>

fun starts_with :: "string \<Rightarrow> string \<Rightarrow> bool" where
  "starts_with s [] = True"
| "starts_with [] (p # ps) = False"
| "starts_with (c # cs) (p # ps) = (c = p \<and> starts_with cs ps)"

fun str_includes :: "string \<Rightarrow> string \<Rightarrow> bool" where
  "str_includes [] p = (p = [])"
| "str_includes (c # cs) p = (starts_with (c # cs) p \<or> str_includes cs p)"

fun join_with :: "string \<Rightarrow> string list \<Rightarrow> string" where
  "join_with sep [] = []"
| "join_with sep [s] = s"
| "join_with sep (s # t # ss) = s @ sep @ join_with sep (t # ss)"

text \<open>String conversion, as a template literal \<open>`${v}`\<close> performs it.\<close>

fun to_string :: "jsval \<Rightarrow> string" where
  "to_string JUndefined = ''undefined''"
| "to_string JNull = ''null''"
| "to_string (JBool b) = (if b then ''true'' else ''false'')"
| "to_string (JNum i) = string_of_int i"
| "to_string (JStr s) = s"
| "to_string (JSignal t) = ''[object AbortSignal]''"
| "to_string (JArr vs) =
     join_with '','' (map (\<lambda>v. if v = JUndefined \<or> v = JNull then [] else to_string v) vs)"
| "to_string (JObj ps) = ''[object Object]''"

text \<open>Truthiness, as \<open>if (v)\<close>, \<open>!v\<close> and \<open>v || d\<close> test it.\<close>

fun truthy :: "jsval \<Rightarrow> bool" where
  "truthy JUndefined = False"
| "truthy JNull = False"
| "truthy (JBool b) = b"
| "truthy (JNum i) = (i \<noteq> 0)"
| "truthy (JStr s) = (s \<noteq> [])"
| "truthy v = True"

definition js_or :: "jsval \<Rightarrow> jsval \<Rightarrow> jsval" where
  "js_or v d = (if truthy v then v else d)"

text \<open>
  Property read \<open>v.k\<close>: it throws a \<open>TypeError\<close> on \<open>undefined\<close> and \<open>null\<close>, reads
  \<open>length\<close> of an array and of a string, and is \<open>undefined\<close> where the property is
  missing. An object literal that names a key twice keeps the last value, so \<open>set_own\<close>
  replaces in place and \<open>get_own\<close> reads the only entry. The errors that the engine
  raises carry the messages of V8 and Node.js.
\<close>

fun get_own :: "(string \<times> jsval) list \<Rightarrow> string \<Rightarrow> jsval" where
  "get_own [] k = JUndefined"
| "get_own ((k', v) # ps) k = (if k' = k then v else get_own ps k)"

fun set_own :: "(string \<times> jsval) list \<Rightarrow> string \<Rightarrow> jsval \<Rightarrow> (string \<times> jsval) list" where
  "set_own [] k v = [(k, v)]"
| "set_own ((k', v') # ps) k v = (if k' = k then (k, v) # ps else (k', v') # set_own ps k v)"

definition cannot_read :: "jsval \<Rightarrow> string \<Rightarrow> thrown" where
  "cannot_read v k =
     Err ''TypeError'' (''Cannot read properties of '' @ to_string v @ '' (reading ''
                         @ [CHR 0x27] @ k @ [CHR 0x27] @ '')'')"

fun get_prop :: "jsval \<Rightarrow> string \<Rightarrow> jsval result" where
  "get_prop JUndefined k = Inl (cannot_read JUndefined k)"
| "get_prop JNull k = Inl (cannot_read JNull k)"
| "get_prop (JObj ps) k = Inr (get_own ps k)"
| "get_prop (JArr vs) k = Inr (if k = ''length'' then JNum (int (length vs)) else JUndefined)"
| "get_prop (JStr s) k = Inr (if k = ''length'' then JNum (int (length s)) else JUndefined)"
| "get_prop v k = Inr JUndefined"

text \<open>\<open>error.message\<close> and \<open>error.name\<close> in a \<open>catch\<close> block, of whatever was thrown.\<close>

definition message_of :: "thrown \<Rightarrow> jsval result" where
  "message_of error =
     (case error of
        Err n m \<Rightarrow> Inr (JStr m)
      | NonError v \<Rightarrow> get_prop v ''message'')"

definition name_of :: "thrown \<Rightarrow> jsval result" where
  "name_of error =
     (case error of
        Err n m \<Rightarrow> Inr (JStr n)
      | NonError v \<Rightarrow> get_prop v ''name'')"

text \<open>
  The method call \<open>v.includes(p)\<close> with a string \<open>p\<close>: the substring test of a string,
  the membership test of an array; on \<open>undefined\<close> and \<open>null\<close> the read of \<open>includes\<close>
  throws, and any other value has no such method.
\<close>

fun includes_js :: "jsval \<Rightarrow> string \<Rightarrow> bool result" where
  "includes_js (JStr m) p = Inr (str_includes m p)"
| "includes_js (JArr vs) p = Inr (JStr p \<in> set vs)"
| "includes_js JUndefined p = Inl (cannot_read JUndefined ''includes'')"
| "includes_js JNull p = Inl (cannot_read JNull ''includes'')"
| "includes_js v p = Inl (Err ''TypeError'' ''error.message.includes is not a function'')"

text \<open>Index read \<open>v[i]\<close> for a literal index \<open>i\<close>.\<close>

fun get_index :: "jsval \<Rightarrow> nat \<Rightarrow> jsval result" where
  "get_index JUndefined i = Inl (cannot_read JUndefined (string_of_nat i))"
| "get_index JNull i = Inl (cannot_read JNull (string_of_nat i))"
| "get_index (JArr vs) i = Inr (if i < length vs then vs ! i else JUndefined)"
| "get_index (JObj ps) i = Inr (get_own ps (string_of_nat i))"
| "get_index (JStr s) i = Inr (if i < length s then JStr [s ! i] else JUndefined)"
| "get_index v i = Inr JUndefined"

text \<open>
  Object spread \<open>{...obj, k: v}\<close>: the own properties of \<open>obj\<close> (none for a value that is not
  an object), then \<open>k\<close> set to \<open>v\<close>.
\<close>

fun own_props :: "jsval \<Rightarrow> (string \<times> jsval) list" where
  "own_props (JObj ps) = ps"
| "own_props v = []"

definition spread_with :: "jsval \<Rightarrow> string \<Rightarrow> jsval \<Rightarrow> jsval" where
  "spread_with obj k v = JObj (set_own (own_props obj) k v)"

text \<open>
  \<open>JSON.stringify\<close>: \<open>None\<close> is its result \<open>undefined\<close>. A property whose value is
  \<open>undefined\<close> is left out of an object and written \<open>null\<close> in an array; an
  \<open>AbortSignal\<close> has no enumerable property of its own. Of the escapes of a string, the
  quote and the backslash are modelled.
\<close>

fun json_escape :: "string \<Rightarrow> string" where
  "json_escape [] = []"
| "json_escape (c # cs) =
     (if c = CHR 0x22 \<or> c = CHR 0x5C then CHR 0x5C # c # json_escape cs else c # json_escape cs)"

definition json_quote :: "string \<Rightarrow> string" where
  "json_quote s = CHR 0x22 # json_escape s @ [CHR 0x22]"

fun JSON_stringify :: "jsval \<Rightarrow> string option" where
  "JSON_stringify JUndefined = None"
| "JSON_stringify JNull = Some ''null''"
| "JSON_stringify (JBool b) = Some (if b then ''true'' else ''false'')"
| "JSON_stringify (JNum i) = Some (string_of_int i)"
| "JSON_stringify (JStr s) = Some (json_quote s)"
| "JSON_stringify (JSignal t) = Some ''{}''"
| "JSON_stringify (JArr vs) =
     Some (''['' @ join_with '',''
        (map (\<lambda>v. case JSON_stringify v of None \<Rightarrow> ''null'' | Some s \<Rightarrow> s) vs) @ '']'')"
| "JSON_stringify (JObj ps) =
     Some (''{'' @ join_with '',''
        (concat (map (\<lambda>(k, v). case JSON_stringify v of None \<Rightarrow> []
                                 | Some s \<Rightarrow> [json_quote k @ '':'' @ s]) ps)) @ ''}'')"

definition stringify_text :: "jsval \<Rightarrow> string" where
  "stringify_text v = (case JSON_stringify v of None \<Rightarrow> ''undefined'' | Some s \<Rightarrow> s)"


section \<open>The transport: \<open>fetch\<close>, the clock and timers\<close>

text \<open>
  The body of a response, as far as \<open>json()\<close> shows it. \<open>content\<close> is what the first
  read gives: the parsed value or, for a body that is not JSON, the message of the
  \<open>SyntaxError\<close>, which the engine words (some engines quote the text of the body in
  it). \<open>consumed\<close> is the message of the \<open>TypeError\<close> with which the engine rejects
  a read of the body once it has been read.

  A \<open>Response\<close> as the snippets read it: \<open>status\<close>, \<open>statusText\<close>, the body and whether
  the body has been read. \<open>response.ok\<close> is the status range 200-299.
  \<open>response.json()\<close> reads the body once.
\<close>

datatype body =
  Body (content: "string + jsval") (consumed: string)

datatype response =
  Response (status: nat) (statusText: string) (body: body) (bodyUsed: bool)

definition ok :: "response \<Rightarrow> bool" where
  "ok r = (200 \<le> status r \<and> status r \<le> 299)"

definition response_json :: "response \<Rightarrow> jsval result \<times> response" where
  "response_json r =
     (if bodyUsed r then (Inl (Err ''TypeError'' (consumed (body r))), r)
      else (case content (body r) of
              Inl message \<Rightarrow> Inl (Err ''SyntaxError'' message)
            | Inr v \<Rightarrow> Inr v,
            Response (status r) (statusText r) (body r) True))"

text \<open>
  What the network answers to one call of \<open>fetch\<close>: a response, or a failure with which
  the promise rejects (a \<open>TypeError\<close> for a network error). A transport gives, for the
  \<open>n\<close>-th call (counted from 0) with its URL and init object, the answer and the time it
  takes in milliseconds.
\<close>

datatype reply =
    Answer nat string body
  | Failure thrown

type_synonym transport = "nat \<Rightarrow> string \<Rightarrow> jsval \<Rightarrow> reply \<times> nat"

text \<open>
  The world of one run: every call of \<open>fetch\<close> so far (oldest first), the clock that
  \<open>Date.now()\<close> reads, and the delays of the timers that were awaited.
\<close>

record world =
  calls :: "(string \<times> jsval) list"
  now :: int
  sleeps :: "int list"

text \<open>The \<open>DOMException\<close> with which an aborted \<open>fetch\<close> rejects.\<close>

definition abort_error :: thrown where
  "abort_error = Err ''AbortError'' ''This operation was aborted''"

fun abort_time :: "jsval \<Rightarrow> int option" where
  "abort_time (JSignal t) = t"
| "abort_time v = None"

definition signal_of :: "jsval \<Rightarrow> int option" where
  "signal_of init = abort_time (get_own (own_props init) ''signal'')"

text \<open>
  \<open>await fetch(url, init)\<close>: the call is logged, and the promise settles with the
  transport's answer when it arrives, unless the signal of \<open>init\<close> is aborted by then:
  an aborted signal rejects the promise with the \<open>AbortError\<close>, whoever aborted it.
\<close>

definition fetch_js :: "transport \<Rightarrow> world \<Rightarrow> string \<Rightarrow> jsval \<Rightarrow> response result \<times> world" where
  "fetch_js net w url init =
     (let (rep, latency) = net (length (calls w)) url init;
          w' = w\<lparr>calls := calls w @ [(url, init)]\<rparr>;
          arrival = now w + int latency;
          delivered = (case rep of
                         Answer st txt b \<Rightarrow> Inr (Response st txt b False)
                       | Failure e \<Rightarrow> Inl e)
      in case signal_of init of
           None \<Rightarrow> (delivered, w'\<lparr>now := arrival\<rparr>)
         | Some t \<Rightarrow>
             if t \<le> arrival then (Inl abort_error, w'\<lparr>now := max (now w) t\<rparr>)
             else (delivered, w'\<lparr>now := arrival\<rparr>))"

text \<open>\<open>await new Promise(resolve => setTimeout(resolve, delay))\<close>.\<close>

definition sleep :: "int \<Rightarrow> world \<Rightarrow> world" where
  "sleep delay w = w\<lparr>sleeps := sleeps w @ [delay], now := now w + max 0 delay\<rparr>"

section \<open>Retry with backoff\<close>

subsection \<open>\<open>fetchWithRetry\<close> of the tutorial script (ajax-complete-guide.js)\<close>

text \<open>
  The body of the \<open>try\<close> block: one call of \<open>fetch\<close>, the check of \<open>response.ok\<close>, the
  parse of the body.
\<close>

definition guide_attempt :: "transport \<Rightarrow> world \<Rightarrow> string \<Rightarrow> jsval \<Rightarrow> jsval result \<times> world" where
  "guide_attempt net w url options =
     (case fetch_js net w url options of
        (Inl error, w') \<Rightarrow> (Inl error, w')
      | (Inr response, w') \<Rightarrow>
          if \<not> ok response then (Inl (Err ''Error'' (''HTTP '' @ string_of_nat (status response))), w')
          else (fst (response_json response), w'))"

text \<open>
  The \<open>for\<close> loop from \<open>i\<close> on, with the current \<open>delay\<close>. A loop that ends without a
  \<open>return\<close> makes the function return \<open>undefined\<close>.
\<close>

function guide_loop ::
  "transport \<Rightarrow> string \<Rightarrow> jsval \<Rightarrow> nat \<Rightarrow> nat \<Rightarrow> int \<Rightarrow> world \<Rightarrow> jsval result \<times> world" where
  "guide_loop net url options retries i delay w =
     (if i < retries then
        (case guide_attempt net w url options of
           (Inr data, w') \<Rightarrow> (Inr data, w')
         | (Inl error, w') \<Rightarrow>
             if i = retries - 1 then (Inl error, w')
             else guide_loop net url options retries (i + 1) (delay * 2) (sleep delay w'))
      else (Inr JUndefined, w))"
  by pat_completeness auto
termination
  by (relation "measure (\<lambda>(net, url, options, retries, i, delay, w). retries - i)") auto

declare guide_loop.simps [simp del]

definition fetchWithRetry_guide ::
  "transport \<Rightarrow> world \<Rightarrow> string \<Rightarrow> jsval \<Rightarrow> nat \<Rightarrow> int \<Rightarrow> jsval result \<times> world" where
  "fetchWithRetry_guide net w url options retries delay = guide_loop net url options retries 0 delay w"

subsection \<open>\<open>fetchWithRetry\<close> of the solutions document (Solution 2.3)\<close>

definition solution_attempt :: "transport \<Rightarrow> world \<Rightarrow> string \<Rightarrow> jsval \<Rightarrow> jsval result \<times> world" where
  "solution_attempt net w url options =
     (case fetch_js net w url options of
        (Inl error, w') \<Rightarrow> (Inl error, w')
      | (Inr response, w') \<Rightarrow>
          if \<not> ok response then
            (if status response \<ge> 400 \<and> status response < 500 then
               (Inl (Err ''Error'' (''Client error '' @ string_of_nat (status response) @ '': ''
                                     @ statusText response)), w')
             else
               (Inl (Err ''Error'' (''Server error '' @ string_of_nat (status response) @ '': ''
                                     @ statusText response)), w'))
          else (fst (response_json response), w'))"

text \<open>
  The test of the \<open>catch\<close> block that rethrows at once,
  \<open>error.message.includes('Client error') || (error.name !== 'TypeError' &&
  !error.message.includes('Server error'))\<close>, on whatever was thrown: \<open>Inr True\<close> when
  the error is rethrown, \<open>Inr False\<close> when the loop goes on, \<open>Inl\<close> when the test itself
  throws (the thrown value has no \<open>message\<close> with a method \<open>includes\<close>).
\<close>

definition no_retry :: "thrown \<Rightarrow> bool result" where
  "no_retry error =
     (case message_of error of
        Inl e \<Rightarrow> Inl e
      | Inr m \<Rightarrow>
          (case includes_js m ''Client error'' of
             Inl e \<Rightarrow> Inl e
           | Inr client \<Rightarrow>
               if client then Inr True
               else (case name_of error of
                       Inl e \<Rightarrow> Inl e
                     | Inr n \<Rightarrow>
                         if n \<noteq> JStr ''TypeError'' then
                           (case includes_js m ''Server error'' of
                              Inl e \<Rightarrow> Inl e
                            | Inr server \<Rightarrow> Inr (\<not> server))
                         else Inr False)))"

text \<open>The error thrown when the retries are used up, with \<open>${error.message}\<close> in its message.\<close>

definition failed_after :: "nat \<Rightarrow> thrown \<Rightarrow> thrown" where
  "failed_after maxRetries error =
     (case message_of error of
        Inl e \<Rightarrow> e
      | Inr m \<Rightarrow> Err ''Error'' (''Failed after '' @ string_of_nat (maxRetries + 1)
                                 @ '' attempts: '' @ to_string m))"

text \<open>
  The \<open>for\<close> loop from \<open>attempt\<close> on. What the \<open>catch\<close> block throws leaves the
  function.
\<close>

function solution_loop ::
  "transport \<Rightarrow> string \<Rightarrow> jsval \<Rightarrow> nat \<Rightarrow> nat \<Rightarrow> thrown option \<Rightarrow> world \<Rightarrow> jsval result \<times> world" where
  "solution_loop net url options maxRetries attempt lastError w =
     (if attempt \<le> maxRetries then
        (case solution_attempt net w url options of
           (Inr data, w') \<Rightarrow> (Inr data, w')
         | (Inl error, w') \<Rightarrow>
             (case no_retry error of
                Inl e \<Rightarrow> (Inl e, w')
              | Inr rethrow \<Rightarrow>
                  if rethrow then (Inl error, w')
                  else if attempt = maxRetries then (Inl (failed_after maxRetries error), w')
                  else solution_loop net url options maxRetries (attempt + 1) (Some error)
                         (sleep (2 ^ attempt * 1000) w')))
      else (Inl (case lastError of None \<Rightarrow> NonError JUndefined | Some e \<Rightarrow> e), w))"
  by pat_completeness auto
termination
  by (relation "measure (\<lambda>(net, url, options, maxRetries, attempt, lastError, w). Suc maxRetries - attempt)") auto

declare solution_loop.simps [simp del]

definition fetchWithRetry_solution ::
  "transport \<Rightarrow> world \<Rightarrow> string \<Rightarrow> jsval \<Rightarrow> nat \<Rightarrow> jsval result \<times> world" where
  "fetchWithRetry_solution net w url options maxRetries =
     solution_loop net url options maxRetries 0 None w"

section \<open>Caches with a time to live\<close>

text \<open>
  Both cache classes hold a \<open>Map\<close> from cache key to \<open>{ data, timestamp }\<close> and a
  \<open>ttl\<close> in milliseconds.
\<close>

record entry =
  data :: jsval
  timestamp :: int

record cache_obj =
  cache :: "string \<rightharpoonup> entry"
  ttl :: int

text \<open>A default parameter \<open>options = {}\<close> replaces an argument that is \<open>undefined\<close>.\<close>

definition default_options :: "jsval \<Rightarrow> jsval" where
  "default_options options = (if options = JUndefined then JObj [] else options)"

subsection \<open>\<open>RequestCache\<close> of the tutorial script\<close>

definition RequestCache_fetch_fresh ::
  "transport \<Rightarrow> cache_obj \<Rightarrow> world \<Rightarrow> string \<Rightarrow> jsval \<Rightarrow> string \<Rightarrow> jsval result \<times> cache_obj \<times> world" where
  "RequestCache_fetch_fresh net c w url options cacheKey =
     (case fetch_js net w url options of
        (Inl error, w') \<Rightarrow> (Inl error, c, w')
      | (Inr response, w') \<Rightarrow>
          (case fst (response_json response) of
             Inl error \<Rightarrow> (Inl error, c, w')
           | Inr d \<Rightarrow>
               (Inr d, c\<lparr>cache := (cache c)(cacheKey \<mapsto> \<lparr>data = d, timestamp = now w'\<rparr>)\<rparr>, w')))"

definition RequestCache_fetch ::
  "transport \<Rightarrow> cache_obj \<Rightarrow> world \<Rightarrow> string \<Rightarrow> jsval \<Rightarrow> jsval result \<times> cache_obj \<times> world" where
  "RequestCache_fetch net c w url options0 =
     (let options = default_options options0;
          cacheKey = url @ stringify_text options
      in case cache c cacheKey of
           None \<Rightarrow> RequestCache_fetch_fresh net c w url options cacheKey
         | Some cached \<Rightarrow>
             if now w - timestamp cached < ttl c then (Inr (data cached), c, w)
             else RequestCache_fetch_fresh net c w url options cacheKey)"

definition RequestCache_clear :: "cache_obj \<Rightarrow> cache_obj" where
  "RequestCache_clear c = c\<lparr>cache := Map.empty\<rparr>"

definition RequestCache_delete :: "cache_obj \<Rightarrow> string \<Rightarrow> cache_obj" where
  "RequestCache_delete c url = c\<lparr>cache := (cache c)(url := None)\<rparr>"

subsection \<open>\<open>CachedFetch\<close> of the solutions document (Solution 2.2)\<close>

definition getCacheKey :: "string \<Rightarrow> jsval \<Rightarrow> string result" where
  "getCacheKey url options0 =
     (let options = default_options options0
      in case get_prop options ''method'' of
           Inl e \<Rightarrow> Inl e
         | Inr m \<Rightarrow>
             (case get_prop options ''body'' of
                Inl e \<Rightarrow> Inl e
              | Inr b \<Rightarrow>
                  Inr (to_string (js_or m (JStr ''GET'')) @ '':'' @ url @ '':''
                       @ to_string (js_or b (JStr [])))))"




definition CachedFetch_clearKey :: "cache_obj \<Rightarrow> string \<Rightarrow> jsval \<Rightarrow> cache_obj result" where
  "CachedFetch_clearKey c url options =
     (case getCacheKey url options of
        Inl e \<Rightarrow> Inl e
      | Inr cacheKey \<Rightarrow> Inr (c\<lparr>cache := (cache c)(cacheKey := None)\<rparr>))"

section \<open>Sequential dependent requests: \<open>fetchUserPostComments\<close>\<close>

text \<open>
  The \<open>catch\<close> block of both variants wraps the message of what was thrown; reading
  \<open>message\<close> of \<open>undefined\<close> or \<open>null\<close> throws in its turn.
\<close>

definition sequential_failed :: "thrown \<Rightarrow> thrown" where
  "sequential_failed error =
     (case message_of error of
        Inl e \<Rightarrow> e
      | Inr m \<Rightarrow> Err ''Error'' (''Sequential fetch failed: '' @ to_string m))"

definition users_url :: "jsval \<Rightarrow> string" where
  "users_url userId = ''https://jsonplaceholder.typicode.com/users/'' @ to_string userId"

definition posts_url :: "jsval \<Rightarrow> string" where
  "posts_url uid = ''https://jsonplaceholder.typicode.com/posts?userId='' @ to_string uid"

definition comments_url :: "jsval \<Rightarrow> string" where
  "comments_url pid = ''https://jsonplaceholder.typicode.com/comments?postId='' @ to_string pid"

text \<open>
  The last step of both variants, from the parsed \<open>posts\<close> on: the comments of
  \<open>posts[0].id\<close> are fetched and \<open>{ user, posts, comments }\<close> is returned.
\<close>

definition fetch_comments :: "transport \<Rightarrow> world \<Rightarrow> jsval \<Rightarrow> jsval \<Rightarrow> jsval result \<times> world" where
  "fetch_comments net w user posts =
     (case get_index posts 0 of
        Inl e \<Rightarrow> (Inl e, w)
      | Inr first \<Rightarrow>
          (case get_prop first ''id'' of
             Inl e \<Rightarrow> (Inl e, w)
           | Inr pid \<Rightarrow>
               (case fetch_js net w (comments_url pid) JUndefined of
                  (Inl e, w') \<Rightarrow> (Inl e, w')
                | (Inr commentsResponse, w') \<Rightarrow>
                    if \<not> ok commentsResponse then (Inl (Err ''Error'' ''Failed to fetch comments''), w')
                    else (case fst (response_json commentsResponse) of
                            Inl e \<Rightarrow> (Inl e, w')
                          | Inr comments \<Rightarrow>
                              (Inr (JObj [(''user'', user), (''posts'', posts),
                                          (''comments'', comments)]), w')))))"

subsection \<open>The challenge template (Challenge 1.3)\<close>

text \<open>
  The body of the \<open>try\<close> block. After the posts request the template reads
  \<open>userResponse.json()\<close> again, on the response whose body the first read has used.
\<close>

definition template_try :: "transport \<Rightarrow> world \<Rightarrow> jsval \<Rightarrow> jsval result \<times> world" where
  "template_try net w userId =
     (case fetch_js net w (users_url userId) JUndefined of
        (Inl e, w1) \<Rightarrow> (Inl e, w1)
      | (Inr userResponse, w1) \<Rightarrow>
          if \<not> ok userResponse then (Inl (Err ''Error'' ''Failed to fetch user''), w1)
          else
            (case response_json userResponse of
               (Inl e, userResponse') \<Rightarrow> (Inl e, w1)
             | (Inr user, userResponse') \<Rightarrow>
                 (case get_prop user ''id'' of
                    Inl e \<Rightarrow> (Inl e, w1)
                  | Inr uid \<Rightarrow>
                      (case fetch_js net w1 (posts_url uid) JUndefined of
                         (Inl e, w2) \<Rightarrow> (Inl e, w2)
                       | (Inr postsResponse, w2) \<Rightarrow>
                           if \<not> ok postsResponse then (Inl (Err ''Error'' ''Failed to fetch posts''), w2)
                           else
                             (case fst (response_json userResponse') of
                                Inl e \<Rightarrow> (Inl e, w2)
                              | Inr posts \<Rightarrow> fetch_comments net w2 user posts)))))"

definition fetchUserPostComments_template :: "transport \<Rightarrow> world \<Rightarrow> jsval \<Rightarrow> jsval result \<times> world" where
  "fetchUserPostComments_template net w userId =
     (case template_try net w userId of
        (Inl error, w') \<Rightarrow> (Inl (sequential_failed error), w')
      | (Inr v, w') \<Rightarrow> (Inr v, w'))"

subsection \<open>The reference solution (Solution 1.3)\<close>

definition solution_try :: "transport \<Rightarrow> world \<Rightarrow> jsval \<Rightarrow> jsval result \<times> world" where
  "solution_try net w userId =
     (case fetch_js net w (users_url userId) JUndefined of
        (Inl e, w1) \<Rightarrow> (Inl e, w1)
      | (Inr userResponse, w1) \<Rightarrow>
          if \<not> ok userResponse then (Inl (Err ''Error'' ''Failed to fetch user''), w1)
          else
            (case fst (response_json userResponse) of
               Inl e \<Rightarrow> (Inl e, w1)
             | Inr user \<Rightarrow>
                 (case get_prop user ''id'' of
                    Inl e \<Rightarrow> (Inl e, w1)
                  | Inr uid \<Rightarrow>
                      (case fetch_js net w1 (posts_url uid) JUndefined of
                         (Inl e, w2) \<Rightarrow> (Inl e, w2)
                       | (Inr postsResponse, w2) \<Rightarrow>
                           if \<not> ok postsResponse then (Inl (Err ''Error'' ''Failed to fetch posts''), w2)
                           else
                             (case fst (response_json postsResponse) of
                                Inl e \<Rightarrow> (Inl e, w2)
                              | Inr posts \<Rightarrow>
                                  (case get_prop posts ''length'' of
                                     Inl e \<Rightarrow> (Inl e, w2)
                                   | Inr len \<Rightarrow>
                                       if len = JNum 0 then
                                         (Inr (JObj [(''user'', user), (''posts'', posts),
                                                     (''comments'', JArr [])]), w2)
                                       else fetch_comments net w2 user posts))))))"

definition fetchUserPostComments_solution :: "transport \<Rightarrow> world \<Rightarrow> jsval \<Rightarrow> jsval result \<times> world" where
  "fetchUserPostComments_solution net w userId =
     (case solution_try net w userId of
        (Inl error, w') \<Rightarrow> (Inl (sequential_failed error), w')
      | (Inr v, w') \<Rightarrow> (Inr v, w'))"

text \<open>The \<open>posts\<close> field of what a run returned, if it returned.\<close>

definition returned_posts :: "jsval result \<Rightarrow> jsval option" where
  "returned_posts r = (case r of Inl e \<Rightarrow> None | Inr v \<Rightarrow> Some (get_own (own_props v) ''posts''))"

section \<open>Timeouts and cancellation\<close>

subsection \<open>\<open>fetchWithTimeout\<close> of the tutorial script\<close>

text \<open>
  The timer aborts the controller \<open>timeout\<close> milliseconds after the call; the signal handed
  to \<open>fetch\<close> is the controller's. The \<open>catch\<close> block logs and rethrows what it caught.
\<close>

definition fetchWithTimeout :: "transport \<Rightarrow> world \<Rightarrow> string \<Rightarrow> int \<Rightarrow> jsval result \<times> world" where
  "fetchWithTimeout net w url timeout =
     (let signal = JSignal (Some (now w + max 0 timeout));
          (r, w') = (case fetch_js net w url (JObj [(''signal'', signal)]) of
                       (Inl error, w') \<Rightarrow> (Inl error, w')
                     | (Inr response, w') \<Rightarrow> (fst (response_json response), w'))
      in case r of
           Inr v \<Rightarrow> (Inr v, w')
         | Inl error \<Rightarrow>
             (case name_of error of
                Inl e \<Rightarrow> (Inl e, w')
              | Inr n \<Rightarrow> (Inl error, w')))"

subsection \<open>\<open>safeFetch\<close> of the solutions document (Solution 1.1)\<close>

definition safeFetch :: "transport \<Rightarrow> world \<Rightarrow> string \<Rightarrow> jsval \<Rightarrow> jsval result \<times> world" where
  "safeFetch net w url options0 =
     (let options = default_options options0;
          signal = JSignal (Some (now w + 5000));
          (r, w') = (case fetch_js net w url (spread_with options ''signal'' signal) of
                       (Inl error, w') \<Rightarrow> (Inl error, w')
                     | (Inr response, w') \<Rightarrow>
                         if \<not> ok response then
                           (Inl (Err ''Error'' (''HTTP Error '' @ string_of_nat (status response)
                                                 @ '': '' @ statusText response)), w')
                         else (fst (response_json response), w'))
      in case r of
           Inr v \<Rightarrow> (Inr v, w')
         | Inl error \<Rightarrow>
             (case name_of error of
                Inl e \<Rightarrow> (Inl e, w')
              | Inr n \<Rightarrow>
                  if n = JStr ''AbortError'' then
                    (Inl (Err ''Error'' ''Request timeout after 5 seconds''), w')
                  else (Inl error, w')))"

subsection \<open>Cancellation by the caller\<close>

text \<open>
  \<open>CancellableRequest.fetch\<close> of the tutorial script and \<open>search\<close> of the cheat sheet hand
  \<open>fetch\<close> the signal of a controller that the caller aborts: by \<open>cancel()\<close> or by the
  next call. \<open>cancelled_at\<close> is the time of that abort, \<open>None\<close> when there is none.
  \<open>CancellableRequest.fetch\<close> returns \<open>null\<close> for an aborted request; \<open>search\<close> returns
  the promise of \<open>fetch\<close> itself.
\<close>

definition CancellableRequest_fetch ::
  "transport \<Rightarrow> world \<Rightarrow> string \<Rightarrow> int option \<Rightarrow> jsval result \<times> world" where
  "CancellableRequest_fetch net w url cancelled_at =
     (let (r, w') = (case fetch_js net w url (JObj [(''signal'', JSignal cancelled_at)]) of
                       (Inl error, w') \<Rightarrow> (Inl error, w')
                     | (Inr response, w') \<Rightarrow> (fst (response_json response), w'))
      in case r of
           Inr v \<Rightarrow> (Inr v, w')
         | Inl error \<Rightarrow>
             (case name_of error of
                Inl e \<Rightarrow> (Inl e, w')
              | Inr n \<Rightarrow> if n = JStr ''AbortError'' then (Inr JNull, w') else (Inl error, w')))"

definition search :: "transport \<Rightarrow> world \<Rightarrow> jsval \<Rightarrow> int option \<Rightarrow> response result \<times> world" where
  "search net w query cancelled_at =
     fetch_js net w (''/search?q='' @ to_string query) (JObj [(''signal'', JSignal cancelled_at)])"

section \<open>Request deduplication\<close>

subsection \<open>The template of Challenge 5.2\<close>

text \<open>
  \<open>createDedupedFetch\<close> is given as a template: the function it returns has an empty body
  (a comment), so a call resolves to \<open>undefined\<close> and touches nothing. The documents hold
  no other implementation of it.
\<close>

definition dedupedFetch :: "transport \<Rightarrow> world \<Rightarrow> string \<Rightarrow> jsval \<Rightarrow> jsval result \<times> world" where
  "dedupedFetch net w url options = (Inr JUndefined, w)"

subsection \<open>The in-flight deduplicator\<close>

text \<open>
  Modelled from the spec: the in-flight deduplicator, of which the documents hold only the
  empty template above and its usage example. A fingerprint is a deterministic string
  derived from method, target and body. The deduplicator maps a fingerprint to a pending
  operation with its waiting callers (here numbered in the order of their calls). In
  \<open>joinOrStart(fingerprint, startFn)\<close> a caller is attached to the operation pending for
  the fingerprint, with no second invocation of \<open>startFn\<close>; if none is pending,
  \<open>startFn\<close> is invoked once (\<open>started\<close> logs the invocations, each one call of the
  transport) and the operation is registered. When the operation settles, its outcome (a
  success value or an error) is distributed to all its callers and the entry is removed, so
  that a later call with the same fingerprint starts afresh.
\<close>

type_synonym fingerprint = string

definition fingerprint :: "string \<Rightarrow> string \<Rightarrow> string \<Rightarrow> fingerprint" where
  "fingerprint method target payload = method @ '':'' @ target @ '':'' @ payload"

record deduplicator =
  pending :: "fingerprint \<rightharpoonup> nat list"
  started :: "fingerprint list"
  received :: "nat \<rightharpoonup> jsval result"
  callers :: nat

definition new_deduplicator :: deduplicator where
  "new_deduplicator = \<lparr>pending = Map.empty, started = [], received = Map.empty, callers = 0\<rparr>"

definition joinOrStart :: "deduplicator \<Rightarrow> fingerprint \<Rightarrow> deduplicator" where
  "joinOrStart d fp =
     (case pending d fp of
        Some ws \<Rightarrow> d\<lparr>pending := (pending d)(fp \<mapsto> ws @ [callers d]), callers := callers d + 1\<rparr>
      | None \<Rightarrow> d\<lparr>pending := (pending d)(fp \<mapsto> [callers d]), started := started d @ [fp],
                    callers := callers d + 1\<rparr>)"

definition settled :: "deduplicator \<Rightarrow> fingerprint \<Rightarrow> jsval result \<Rightarrow> deduplicator" where
  "settled d fp r =
     (case pending d fp of
        None \<Rightarrow> d
      | Some ws \<Rightarrow> d\<lparr>received := (\<lambda>c. if c \<in> set ws then Some r else received d c),
                      pending := (pending d)(fp := None)\<rparr>)"

text \<open>
  What can happen to the deduplicator: a caller calls \<open>joinOrStart\<close>, or the operation
  started for a fingerprint settles with an outcome.
\<close>

datatype dedup_event =
    JoinOrStart fingerprint
  | Settles fingerprint "jsval result"

fun dedup_step :: "deduplicator \<Rightarrow> dedup_event \<Rightarrow> deduplicator" where
  "dedup_step d (JoinOrStart fp) = joinOrStart d fp"
| "dedup_step d (Settles fp r) = settled d fp r"

definition dedup_run :: "deduplicator \<Rightarrow> dedup_event list \<Rightarrow> deduplicator" where
  "dedup_run d evs = foldl dedup_step d evs"

text \<open>
  The callers that call \<open>joinOrStart\<close> with the fingerprint \<open>fp\<close> in the events \<open>evs\<close>,
  \<open>c\<close> being the number of the next caller; and events in which no operation for \<open>fp\<close>
  settles.
\<close>

fun joiners :: "nat \<Rightarrow> fingerprint \<Rightarrow> dedup_event list \<Rightarrow> nat list" where
  "joiners c fp [] = []"
| "joiners c fp (JoinOrStart fp' # evs) =
     (if fp' = fp then c # joiners (c + 1) fp evs else joiners (c + 1) fp evs)"
| "joiners c fp (Settles fp' r # evs) = joiners c fp evs"

fun in_flight_for :: "fingerprint \<Rightarrow> dedup_event list \<Rightarrow> bool" where
  "in_flight_for fp [] = True"
| "in_flight_for fp (JoinOrStart fp' # evs) = in_flight_for fp evs"
| "in_flight_for fp (Settles fp' r # evs) = (fp' \<noteq> fp \<and> in_flight_for fp evs)"

section \<open>The authenticated API service (Solution 3.1)\<close>

text \<open>
  \<open>AuthAPI\<close> serves several callers at once: each call of \<open>_request\<close> runs until its next
  \<open>await\<close>, and goes on when what it awaits settles. A logical call is a task with the
  arguments of \<open>_request\<close> and the point where it waits: for the response to its request,
  for the refresh promise with a given number, or not any more (settled with a value or an
  error).
\<close>

datatype progress =
    AwaitingResponse
  | AwaitingRefresh nat
  | Settled "jsval result"

record task =
  task_endpoint :: string
  task_options :: jsval
  task_state :: progress

text \<open>
  A refresh promise: pending, fulfilled or rejected, with the tasks that await it, in the
  order in which they came to await it.
\<close>

datatype promise_state =
    Pending
  | Fulfilled jsval
  | Rejected thrown

record promise =
  p_state :: promise_state
  waiters :: "nat list"

text \<open>
  The object and what it touches: its fields \<open>baseURL\<close>, \<open>token\<close> and \<open>refreshPromise\<close>
  (the number of the promise stored there), the item \<open>auth_token\<close> of \<open>localStorage\<close>
  (a string or \<open>null\<close>), every call of \<open>fetch\<close> so far, the tasks, every refresh promise
  created so far, and the number of calls of \<open>login\<close> whose response has not arrived.
\<close>

record auth_api =
  baseURL :: string
  token :: jsval
  refreshPromise :: "nat option"
  auth_token :: jsval
  sent :: "(string \<times> jsval) list"
  tasks :: "task list"
  refreshes :: "promise list"
  logins :: nat

definition new_AuthAPI :: "string \<Rightarrow> jsval \<Rightarrow> auth_api" where
  "new_AuthAPI url stored =
     \<lparr>baseURL = url, token = JNull, refreshPromise = None, auth_token = stored,
      sent = [], tasks = [], refreshes = [], logins = 0\<rparr>"

definition set_task :: "auth_api \<Rightarrow> nat \<Rightarrow> progress \<Rightarrow> auth_api" where
  "set_task s i st = s\<lparr>tasks := (tasks s)[i := (tasks s ! i)\<lparr>task_state := st\<rparr>]\<rparr>"

definition logout :: "auth_api \<Rightarrow> auth_api" where
  "logout s = s\<lparr>token := JNull, refreshPromise := None, auth_token := JNull\<rparr>"

text \<open>Object spread \<open>{...base, ...extra}\<close> on property lists.\<close>

definition assign_props :: "(string \<times> jsval) list \<Rightarrow> (string \<times> jsval) list \<Rightarrow> (string \<times> jsval) list" where
  "assign_props base extra = fold (\<lambda>(k, v) ps. set_own ps k v) extra base"

text \<open>
  The init object that \<open>_request\<close> hands to \<open>fetch\<close>: the options with the headers
  \<open>{ 'Content-Type': 'application/json', ...options.headers }\<close>, and \<open>Authorization\<close>
  set when there is a token. Reading \<open>options.headers\<close> throws when \<open>options\<close> is
  \<open>null\<close>.
\<close>

definition request_init :: "jsval \<Rightarrow> jsval \<Rightarrow> jsval result" where
  "request_init tok options =
     (case get_prop options ''headers'' of
        Inl e \<Rightarrow> Inl e
      | Inr hs \<Rightarrow>
          let headers0 = assign_props [(''Content-Type'', JStr ''application/json'')] (own_props hs);
              headers = (if truthy tok
                         then set_own headers0 ''Authorization'' (JStr (''Bearer '' @ to_string tok))
                         else headers0)
          in Inr (spread_with options ''headers'' (JObj headers)))"

text \<open>
  \<open>_request\<close> of task \<open>i\<close> up to its \<open>await fetch(...)\<close>: the token is loaded from storage
  when the field holds none, the headers are built, the request is sent.
\<close>

definition request_sync :: "auth_api \<Rightarrow> nat \<Rightarrow> auth_api" where
  "request_sync s i =
     (let t = tasks s ! i;
          s1 = (if \<not> truthy (token s) then s\<lparr>token := auth_token s\<rparr> else s)
      in case request_init (token s1) (task_options t) of
           Inl e \<Rightarrow> set_task s1 i (Settled (Inl e))
         | Inr init \<Rightarrow>
             set_task (s1\<lparr>sent := sent s1 @ [(baseURL s1 @ task_endpoint t, init)]\<rparr>)
               i AwaitingResponse)"

text \<open>
  A task goes on after \<open>await this._refreshToken()\<close> with the outcome of the refresh: it
  calls \<open>_request\<close> again, or settles with the error of the refresh.
\<close>

definition resume :: "jsval result \<Rightarrow> nat \<Rightarrow> auth_api \<Rightarrow> auth_api" where
  "resume r i s =
     (case r of
        Inr v \<Rightarrow> request_sync s i
      | Inl e \<Rightarrow> set_task s i (Settled (Inl e)))"

text \<open>
  \<open>await this._refreshToken()\<close> in task \<open>i\<close>: the stored promise is joined when there is
  one; otherwise the refresh request is sent and its promise stored.
\<close>

definition refresh_init :: "auth_api \<Rightarrow> jsval" where
  "refresh_init s =
     JObj [(''method'', JStr ''POST''),
           (''headers'', JObj [(''Authorization'', JStr (''Bearer '' @ to_string (token s)))])]"

definition join_refresh :: "auth_api \<Rightarrow> nat \<Rightarrow> nat \<Rightarrow> auth_api" where
  "join_refresh s p i =
     (if p < length (refreshes s) then
        (case p_state (refreshes s ! p) of
           Pending \<Rightarrow>
             set_task (s\<lparr>refreshes := (refreshes s)
                           [p := (refreshes s ! p)\<lparr>waiters := waiters (refreshes s ! p) @ [i]\<rparr>]\<rparr>)
               i (AwaitingRefresh p)
         | Fulfilled v \<Rightarrow> resume (Inr v) i s
         | Rejected e \<Rightarrow> resume (Inl e) i s)
      else set_task s i (AwaitingRefresh p))"

definition refreshToken_sync :: "auth_api \<Rightarrow> nat \<Rightarrow> auth_api" where
  "refreshToken_sync s i =
     (case refreshPromise s of
        Some p \<Rightarrow> join_refresh s p i
      | None \<Rightarrow>
          let p = length (refreshes s)
          in set_task (s\<lparr>sent := sent s @ [(baseURL s @ ''/auth/refresh'', refresh_init s)],
                         refreshes := refreshes s @ [\<lparr>p_state = Pending, waiters = [i]\<rparr>],
                         refreshPromise := Some p\<rparr>)
               i (AwaitingRefresh p))"

text \<open>The response to the request of task \<open>i\<close> arrives.\<close>

definition on_response :: "auth_api \<Rightarrow> nat \<Rightarrow> reply \<Rightarrow> auth_api" where
  "on_response s i rep =
     (case rep of
        Failure e \<Rightarrow> set_task s i (Settled (Inl e))
      | Answer st txt b \<Rightarrow>
          let response = Response st txt b False
          in if status response = 401 then refreshToken_sync s i
             else if \<not> ok response then
               set_task s i (Settled (Inl (Err ''Error'' (''HTTP '' @ string_of_nat (status response)
                                                            @ '': '' @ statusText response))))
             else set_task s i (Settled (fst (response_json response))))"

text \<open>
  The \<open>try\<close> block of the refresh: the new token, or what it throws. The destructuring
  \<open>const { token } = ...\<close> reads the property \<open>token\<close> of the parsed body.
\<close>

definition refresh_outcome :: "reply \<Rightarrow> jsval result" where
  "refresh_outcome rep =
     (case rep of
        Failure e \<Rightarrow> Inl e
      | Answer st txt b \<Rightarrow>
          let response = Response st txt b False
          in if \<not> ok response then Inl (Err ''Error'' ''Token refresh failed'')
             else (case fst (response_json response) of
                     Inl e \<Rightarrow> Inl e
                   | Inr v \<Rightarrow> get_prop v ''token''))"

text \<open>
  The response to the refresh request of promise \<open>p\<close> arrives: the token is replaced, or
  \<open>logout()\<close> runs in the \<open>catch\<close> block; \<open>finally\<close> clears \<open>refreshPromise\<close>; the promise
  settles, and every task that awaits it goes on, before any other event.
\<close>

definition settle :: "promise \<Rightarrow> jsval result \<Rightarrow> promise" where
  "settle pr r = pr\<lparr>p_state := (case r of Inr v \<Rightarrow> Fulfilled v | Inl e \<Rightarrow> Rejected e)\<rparr>"

definition on_refresh_response :: "auth_api \<Rightarrow> nat \<Rightarrow> reply \<Rightarrow> auth_api" where
  "on_refresh_response s p rep =
     (let r = refresh_outcome rep;
          s1 = (case r of
                  Inr tok \<Rightarrow> s\<lparr>token := tok, auth_token := JStr (to_string tok)\<rparr>
                | Inl error \<Rightarrow> logout s);
          s2 = s1\<lparr>refreshPromise := None,
                  refreshes := (refreshes s1)[p := settle (refreshes s1 ! p) r]\<rparr>
      in fold (resume r) (waiters (refreshes s ! p)) s2)"

text \<open>
  \<open>login(email, password)\<close>: the request is sent at the call; when its response arrives,
  the token of the parsed body is stored, or the call throws and nothing changes.
\<close>

definition login_init :: "jsval \<Rightarrow> jsval \<Rightarrow> jsval" where
  "login_init email password =
     JObj [(''method'', JStr ''POST''),
           (''headers'', JObj [(''Content-Type'', JStr ''application/json'')]),
           (''body'', JStr (stringify_text (JObj [(''email'', email), (''password'', password)])))]"

definition login_outcome :: "reply \<Rightarrow> jsval result" where
  "login_outcome rep =
     (case rep of
        Failure e \<Rightarrow> Inl e
      | Answer st txt b \<Rightarrow>
          let response = Response st txt b False
          in if \<not> ok response then Inl (Err ''Error'' ''Login failed'')
             else (case fst (response_json response) of
                     Inl e \<Rightarrow> Inl e
                   | Inr v \<Rightarrow> get_prop v ''token''))"

definition on_login_response :: "auth_api \<Rightarrow> reply \<Rightarrow> auth_api" where
  "on_login_response s rep =
     (case login_outcome rep of
        Inr tok \<Rightarrow> s\<lparr>token := tok, auth_token := JStr (to_string tok), logins := logins s - 1\<rparr>
      | Inl error \<Rightarrow> s\<lparr>logins := logins s - 1\<rparr>)"

text \<open>
  What can happen to the service: a caller calls \<open>_request\<close> (directly or through
  \<open>get\<close>, \<open>post\<close>, \<open>put\<close> and \<open>delete\<close>, which only fix the options), the response to the
  request of a task arrives, the response to a refresh request arrives, a caller calls
  \<open>logout()\<close>, a caller calls \<open>login\<close>, the response to a login request arrives.
\<close>

datatype event =
    Call string jsval
  | Respond nat reply
  | RefreshRespond nat reply
  | Logout
  | Login jsval jsval
  | LoginRespond reply

definition step :: "auth_api \<Rightarrow> event \<Rightarrow> auth_api" where
  "step s ev =
     (case ev of
        Call endpoint options \<Rightarrow>
          request_sync
            (s\<lparr>tasks := tasks s @ [\<lparr>task_endpoint = endpoint,
                                    task_options = default_options options,
                                    task_state = AwaitingResponse\<rparr>]\<rparr>)
            (length (tasks s))
      | Respond i rep \<Rightarrow>
          if i < length (tasks s) \<and> task_state (tasks s ! i) = AwaitingResponse
          then on_response s i rep else s
      | RefreshRespond p rep \<Rightarrow>
          if p < length (refreshes s) \<and> p_state (refreshes s ! p) = Pending
          then on_refresh_response s p rep else s
      | Logout \<Rightarrow> logout s
      | Login email password \<Rightarrow>
          s\<lparr>sent := sent s @ [(baseURL s @ ''/auth/login'', login_init email password)],
            logins := logins s + 1\<rparr>
      | LoginRespond rep \<Rightarrow> if 0 < logins s then on_login_response s rep else s)"

definition run :: "auth_api \<Rightarrow> event list \<Rightarrow> auth_api" where
  "run s evs = foldl step s evs"

text \<open>The refresh operations in flight: the promises still pending.\<close>

definition in_flight :: "auth_api \<Rightarrow> nat" where
  "in_flight s = length (filter (\<lambda>pr. p_state pr = Pending) (refreshes s))"

subsection \<open>What holds of the service at every moment\<close>

text \<open>
  Options from which \<open>_request\<close> can build its init object: reading \<open>options.headers\<close>
  does not throw.
\<close>

definition readable :: "jsval \<Rightarrow> bool" where
  "readable options = (options \<noteq> JUndefined \<and> options \<noteq> JNull)"

text \<open>
  Every pending refresh promise is the one stored in \<open>refreshPromise\<close>; the promise
  stored there is pending; a task that still waits, and a task that awaited a refresh, has
  readable options.
\<close>

definition pending_is_stored :: "auth_api \<Rightarrow> bool" where
  "pending_is_stored s =
     (\<forall>p < length (refreshes s).
        p_state (refreshes s ! p) = Pending \<longrightarrow> refreshPromise s = Some p)"

definition stored_is_pending :: "auth_api \<Rightarrow> bool" where
  "stored_is_pending s =
     (case refreshPromise s of
        None \<Rightarrow> True
      | Some p \<Rightarrow> p < length (refreshes s) \<and> p_state (refreshes s ! p) = Pending)"

definition waiting_readable :: "auth_api \<Rightarrow> bool" where
  "waiting_readable s =
     ((\<forall>i < length (tasks s).
         (\<forall>r. task_state (tasks s ! i) \<noteq> Settled r) \<longrightarrow> readable (task_options (tasks s ! i)))
      \<and> (\<forall>p < length (refreshes s). \<forall>i \<in> set (waiters (refreshes s ! p)).
            i < length (tasks s) \<and> readable (task_options (tasks s ! i))))"

text \<open>
  The waiters of a pending refresh promise are distinct tasks, each awaiting that promise;
  and a task that awaits a refresh awaits a pending promise and is among its waiters.
\<close>

definition waiters_wait :: "auth_api \<Rightarrow> bool" where
  "waiters_wait s =
     (\<forall>p < length (refreshes s). p_state (refreshes s ! p) = Pending \<longrightarrow>
        distinct (waiters (refreshes s ! p))
        \<and> (\<forall>i \<in> set (waiters (refreshes s ! p)). task_state (tasks s ! i) = AwaitingRefresh p))"

definition awaited_is_pending :: "auth_api \<Rightarrow> bool" where
  "awaited_is_pending s =
     (\<forall>i < length (tasks s). \<forall>p. task_state (tasks s ! i) = AwaitingRefresh p \<longrightarrow>
        p < length (refreshes s) \<and> p_state (refreshes s ! p) = Pending
        \<and> i \<in> set (waiters (refreshes s ! p)))"

text \<open>
  The token with which \<open>_request\<close> goes on: the field \<open>token\<close>, or the item in storage
  when the field holds none.
\<close>

definition loaded_token :: "auth_api \<Rightarrow> jsval" where
  "loaded_token s = (if truthy (token s) then token s else auth_token s)"

text \<open>The \<open>Authorization\<close> header of an init object, and the request that a task sends.\<close>

definition authorization_of :: "jsval \<Rightarrow> jsval" where
  "authorization_of init = get_own (own_props (get_own (own_props init) ''headers'')) ''Authorization''"

definition request_of :: "auth_api \<Rightarrow> jsval \<Rightarrow> nat \<Rightarrow> string \<times> jsval" where
  "request_of s tok i =
     (baseURL s @ task_endpoint (tasks s ! i),
      case request_init tok (task_options (tasks s ! i)) of Inr init \<Rightarrow> init | Inl e \<Rightarrow> JUndefined)"

text \<open>The state in which the waiting tasks go on after the refresh of promise \<open>p\<close> has settled.\<close>

definition settled_state :: "auth_api \<Rightarrow> nat \<Rightarrow> jsval result \<Rightarrow> auth_api" where
  "settled_state s p r =
     (case r of
        Inr tok \<Rightarrow> s\<lparr>token := tok, auth_token := JStr (to_string tok)\<rparr>
      | Inl error \<Rightarrow> logout s)
     \<lparr>refreshPromise := None, refreshes := (refreshes s)[p := settle (refreshes s ! p) r]\<rparr>"

text \<open>
  The state in which the tasks \<open>js\<close>, which awaited their responses in \<open>s\<close>, share one new
  refresh: its request is sent, its promise is stored, and the tasks await it in the order
  \<open>js\<close>.
\<close>

definition mark_waiting :: "nat \<Rightarrow> nat list \<Rightarrow> task list \<Rightarrow> task list" where
  "mark_waiting p js ts = fold (\<lambda>i ts. ts[i := (ts ! i)\<lparr>task_state := AwaitingRefresh p\<rparr>]) js ts"

definition sharing :: "auth_api \<Rightarrow> nat list \<Rightarrow> auth_api" where
  "sharing s js =
     s\<lparr>sent := sent s @ [(baseURL s @ ''/auth/refresh'', refresh_init s)],
       refreshes := refreshes s @ [\<lparr>p_state = Pending, waiters = js\<rparr>],
       refreshPromise := Some (length (refreshes s)),
       tasks := mark_waiting (length (refreshes s)) js (tasks s)\<rparr>"


section \<open>\<open>AuthAPI\<close> of the cheat sheet\<close>

text \<open>
  The class of the cheat sheet keeps \<open>baseURL\<close> and \<open>token\<close>. Its \<open>request\<close> builds the
  headers as \<open>_request\<close> of Solution 3.1 does. On a 401 it calls \<open>this.refreshToken()\<close>,
  a method that the class does not define: the call throws a \<open>TypeError\<close>, before any
  refresh and before the call of \<open>request\<close> that follows it in the source.
\<close>

definition AuthAPI_request ::
  "transport \<Rightarrow> world \<Rightarrow> string \<Rightarrow> jsval \<Rightarrow> string \<Rightarrow> jsval \<Rightarrow> jsval result \<times> world" where
  "AuthAPI_request net w base tok endpoint options0 =
     (let options = default_options options0
      in case request_init tok options of
           Inl e \<Rightarrow> (Inl e, w)
         | Inr init \<Rightarrow>
             (case fetch_js net w (base @ endpoint) init of
                (Inl e, w') \<Rightarrow> (Inl e, w')
              | (Inr response, w') \<Rightarrow>
                  if status response = 401 then
                    (Inl (Err ''TypeError'' ''this.refreshToken is not a function''), w')
                  else if \<not> ok response then
                    (Inl (Err ''Error'' (''HTTP '' @ string_of_nat (status response))), w')
                  else (fst (response_json response), w')))"

section \<open>Sample runs\<close>

text \<open>
  Bodies with the messages of one engine: a JSON value, and an empty body, which is not
  JSON. A world in which nothing has happened yet, and transports that give the same
  answer to every call, 20 milliseconds after it.
\<close>

definition json_body :: "jsval \<Rightarrow> body" where
  "json_body v = Body (Inr v) ''Body is unusable: Body has already been read''"

definition empty_body :: body where
  "empty_body = Body (Inl ''Unexpected end of JSON input'') ''Body is unusable: Body has already been read''"

definition fresh_world :: world where
  "fresh_world = \<lparr>calls = [], now = 0, sleeps = []\<rparr>"

definition always_500 :: transport where
  "always_500 n url init = (Answer 500 ''Internal Server Error'' empty_body, 20)"

definition always_404 :: transport where
  "always_404 n url init = (Answer 404 ''Not Found'' empty_body, 20)"

definition always_401 :: transport where
  "always_401 n url init = (Answer 401 ''Unauthorized'' empty_body, 20)"

definition offline :: transport where
  "offline n url init = (Failure (Err ''TypeError'' ''Failed to fetch''), 20)"

definition users_200 :: transport where
  "users_200 n url init = (Answer 200 ''OK'' (json_body (JArr [JObj [(''id'', JNum 1)]])), 20)"




text \<open>
  The constructor of both cache classes, a cache that holds one entry stored at time 0 under
  a given key, with a time to live of one second, and a world whose clock reads two seconds.
\<close>

definition new_cache :: "int \<Rightarrow> cache_obj" where
  "new_cache t = \<lparr>cache = Map.empty, ttl = t\<rparr>"



definition late_world :: world where
  "late_world = \<lparr>calls = [], now = 2000, sleeps = []\<rparr>"

text \<open>
  The first \<open>fetch('/x')\<close> of a new \<open>RequestCache\<close>: its result, the cache and the
  world after it.
\<close>

definition fetched_x :: "jsval result \<times> cache_obj \<times> world" where
  "fetched_x = RequestCache_fetch users_200 (new_cache 60000) fresh_world ''/x'' JUndefined"

text \<open>
  A server in the manner of the placeholder API of the challenges: user 1, one post of
  the user, one comment on the post.
\<close>

definition placeholder_api :: transport where
  "placeholder_api n url init =
     (if url = ''https://jsonplaceholder.typicode.com/users/1'' then
        (Answer 200 ''OK'' (json_body (JObj [(''id'', JNum 1), (''name'', JStr ''Leanne Graham'')])), 20)
      else if url = ''https://jsonplaceholder.typicode.com/posts?userId=1'' then
        (Answer 200 ''OK'' (json_body (JArr [JObj [(''id'', JNum 10), (''userId'', JNum 1)]])), 20)
      else if url = ''https://jsonplaceholder.typicode.com/comments?postId=10'' then
        (Answer 200 ''OK'' (json_body (JArr [JObj [(''id'', JNum 100), (''postId'', JNum 10)]])), 20)
      else (Answer 404 ''Not Found'' empty_body, 20))"

text \<open>A server that answers only after a minute.\<close>

definition stalled :: transport where
  "stalled n url init = (Answer 200 ''OK'' (json_body JNull), 60000)"

text \<open>The fingerprints of two requests, and the answer to the first.\<close>

definition users_fp :: fingerprint where
  "users_fp = fingerprint ''GET'' ''/api/users'' []"

definition posts_fp :: fingerprint where
  "posts_fp = fingerprint ''GET'' ''/api/posts'' []"

definition users_list :: "jsval result" where
  "users_list = Inr (JArr [JObj [(''id'', JNum 1)]])"

text \<open>
  The answers of an authentication server: 401 to a request, a new token or a failure to a
  refresh request. \<open>cycles i p n\<close> are the events of \<open>n\<close> rounds in which the request of
  task \<open>i\<close> is answered 401 and the refresh that follows succeeds, the first refresh
  promise being number \<open>p\<close>.
\<close>

definition unauthorized :: reply where
  "unauthorized = Answer 401 ''Unauthorized'' empty_body"

definition new_token :: "string \<Rightarrow> reply" where
  "new_token t = Answer 200 ''OK'' (json_body (JObj [(''token'', JStr t)]))"

definition refresh_denied :: reply where
  "refresh_denied = Answer 403 ''Forbidden'' empty_body"

fun cycles :: "nat \<Rightarrow> nat \<Rightarrow> string \<Rightarrow> nat \<Rightarrow> event list" where
  "cycles i p t 0 = []"
| "cycles i p t (Suc n) = Respond i unauthorized # RefreshRespond p (new_token t) # cycles i (Suc p) t n"

definition service :: auth_api where
  "service = new_AuthAPI ''https://api.example.com'' (JStr ''t0'')"

section \<open>Properties of the retry loops\<close>

lemma fetch_js_calls: "calls (snd (fetch_js net w url init)) = calls w @ [(url, init)]"
  by (simp add: fetch_js_def Let_def split: prod.splits option.splits reply.splits)

lemma fetch_js_sleeps: "sleeps (snd (fetch_js net w url init)) = sleeps w"
  by (simp add: fetch_js_def Let_def split: prod.splits option.splits reply.splits)

lemma guide_attempt_calls:
  "calls (snd (guide_attempt net w url options)) = calls w @ [(url, options)]"
  using fetch_js_calls [of net w url options]
  by (auto simp: guide_attempt_def split: prod.splits sum.splits)

lemma guide_attempt_sleeps: "sleeps (snd (guide_attempt net w url options)) = sleeps w"
  using fetch_js_sleeps [of net w url options]
  by (auto simp: guide_attempt_def split: prod.splits sum.splits)

lemma solution_attempt_calls:
  "calls (snd (solution_attempt net w url options)) = calls w @ [(url, options)]"
  using fetch_js_calls [of net w url options]
  by (auto simp: solution_attempt_def split: prod.splits sum.splits)

lemma solution_attempt_sleeps: "sleeps (snd (solution_attempt net w url options)) = sleeps w"
  using fetch_js_sleeps [of net w url options]
  by (auto simp: solution_attempt_def split: prod.splits sum.splits)

lemma sleep_calls [simp]: "calls (sleep d w) = calls w"
  by (simp add: sleep_def)

lemma sleep_sleeps [simp]: "sleeps (sleep d w) = sleeps w @ [d]"
  by (simp add: sleep_def)

lemma guide_loop_done:
  "\<not> i < retries \<Longrightarrow> guide_loop net url options retries i delay w = (Inr JUndefined, w)"
  by (subst guide_loop.simps) simp

lemma guide_loop_ok:
  "i < retries \<Longrightarrow> guide_attempt net w url options = (Inr v, w1) \<Longrightarrow>
   guide_loop net url options retries i delay w = (Inr v, w1)"
  by (subst guide_loop.simps) simp

lemma guide_loop_last:
  "i < retries \<Longrightarrow> guide_attempt net w url options = (Inl e, w1) \<Longrightarrow> i = retries - 1 \<Longrightarrow>
   guide_loop net url options retries i delay w = (Inl e, w1)"
  by (subst guide_loop.simps) simp

lemma guide_loop_retry:
  "i < retries \<Longrightarrow> guide_attempt net w url options = (Inl e, w1) \<Longrightarrow> i \<noteq> retries - 1 \<Longrightarrow>
   guide_loop net url options retries i delay w =
   guide_loop net url options retries (i + 1) (delay * 2) (sleep delay w1)"
  by (subst guide_loop.simps) simp

lemma guide_loop_calls_ge:
  "length (calls w) + (if i < retries then 1 else 0)
     \<le> length (calls (snd (guide_loop net url options retries i delay w)))"
proof (induction net url options retries i delay w rule: guide_loop.induct)
  case (1 net url options retries i delay w)
  show ?case
  proof (cases "i < retries")
    case False
    then show ?thesis by (simp add: guide_loop_done)
  next
    case True
    obtain r w1 where a: "guide_attempt net w url options = (r, w1)" by force
    have c1: "length (calls w1) = length (calls w) + 1"
      using guide_attempt_calls [of net w url options] a by simp
    show ?thesis
    proof (cases r)
      case (Inr v)
      with True a c1 show ?thesis by (simp add: guide_loop_ok)
    next
      case (Inl e)
      show ?thesis
      proof (cases "i = retries - 1")
        case True
        with \<open>i < retries\<close> a c1 Inl show ?thesis
          by (simp add: guide_loop_last)
      next
        case False
        have "length (calls (sleep delay w1)) + (if i + 1 < retries then 1 else 0)
               \<le> length (calls (snd (guide_loop net url options retries (i + 1) (delay * 2) (sleep delay w1))))"
          using "1.IH" [OF True a [symmetric] _ False] Inl by simp
        moreover have "guide_loop net url options retries i delay w =
            guide_loop net url options retries (i + 1) (delay * 2) (sleep delay w1)"
          using guide_loop_retry True a Inl False by simp
        ultimately show ?thesis using c1 True by simp
      qed
    qed
  qed
qed

lemma guide_loop_sleeps:
  "sleeps (snd (guide_loop net url options retries i delay w)) =
     sleeps w @ map (\<lambda>n. delay * 2 ^ n)
       [0..<length (calls (snd (guide_loop net url options retries i delay w))) - length (calls w) - 1]"
proof (induction net url options retries i delay w rule: guide_loop.induct)
  case (1 net url options retries i delay w)
  show ?case
  proof (cases "i < retries")
    case False
    then show ?thesis by (simp add: guide_loop_done)
  next
    case True
    obtain r w1 where a: "guide_attempt net w url options = (r, w1)" by force
    have c1: "length (calls w1) = length (calls w) + 1"
      using guide_attempt_calls [of net w url options] a by simp
    have s1: "sleeps w1 = sleeps w"
      using guide_attempt_sleeps [of net w url options] a by simp
    show ?thesis
    proof (cases r)
      case (Inr v)
      with True a c1 s1 show ?thesis by (simp add: guide_loop_ok)
    next
      case (Inl e)
      show ?thesis
      proof (cases "i = retries - 1")
        case True
        with \<open>i < retries\<close> a c1 s1 Inl show ?thesis
          by (simp add: guide_loop_last)
      next
        case False
        define res where "res = guide_loop net url options retries (i + 1) (delay * 2) (sleep delay w1)"
        have eq: "guide_loop net url options retries i delay w = res"
          unfolding res_def using guide_loop_retry True a Inl False by simp
        have ih: "sleeps (snd res) = sleeps (sleep delay w1) @ map (\<lambda>n. delay * 2 * 2 ^ n)
                    [0..<length (calls (snd res)) - length (calls (sleep delay w1)) - 1]"
          unfolding res_def using "1.IH" [OF True a [symmetric] _ False] Inl by simp
        have "i + 1 < retries" using True False by arith
        then have ge: "length (calls (sleep delay w1)) + 1 \<le> length (calls (snd res))"
          unfolding res_def
          using guide_loop_calls_ge [of "sleep delay w1" "i + 1" retries net url options "delay * 2"]
          by simp
        then obtain m where m: "length (calls (snd res)) = length (calls w) + 2 + m"
          using c1 by (metis add.assoc add.commute le_Suc_ex one_add_one sleep_calls)
        show ?thesis
          unfolding eq using ih m c1 s1
          by (simp add: map_upt_Suc del: upt_Suc)
      qed
    qed
  qed
qed
lemma solution_loop_done:
  "\<not> attempt \<le> maxRetries \<Longrightarrow>
   solution_loop net url options maxRetries attempt lastError w =
     (Inl (case lastError of None \<Rightarrow> NonError JUndefined | Some e \<Rightarrow> e), w)"
  by (subst solution_loop.simps) simp

lemma solution_loop_ok:
  "attempt \<le> maxRetries \<Longrightarrow> solution_attempt net w url options = (Inr v, w1) \<Longrightarrow>
   solution_loop net url options maxRetries attempt lastError w = (Inr v, w1)"
  by (subst solution_loop.simps) simp

lemma solution_loop_test_throws:
  "attempt \<le> maxRetries \<Longrightarrow> solution_attempt net w url options = (Inl error, w1) \<Longrightarrow>
   no_retry error = Inl e \<Longrightarrow>
   solution_loop net url options maxRetries attempt lastError w = (Inl e, w1)"
  by (subst solution_loop.simps) simp

lemma solution_loop_rethrow:
  "attempt \<le> maxRetries \<Longrightarrow> solution_attempt net w url options = (Inl error, w1) \<Longrightarrow>
   no_retry error = Inr True \<Longrightarrow>
   solution_loop net url options maxRetries attempt lastError w = (Inl error, w1)"
  by (subst solution_loop.simps) simp

lemma solution_loop_exhausted:
  "attempt \<le> maxRetries \<Longrightarrow> solution_attempt net w url options = (Inl error, w1) \<Longrightarrow>
   no_retry error = Inr False \<Longrightarrow> attempt = maxRetries \<Longrightarrow>
   solution_loop net url options maxRetries attempt lastError w =
     (Inl (failed_after maxRetries error), w1)"
  by (subst solution_loop.simps) simp

lemma solution_loop_retry:
  "attempt \<le> maxRetries \<Longrightarrow> solution_attempt net w url options = (Inl error, w1) \<Longrightarrow>
   no_retry error = Inr False \<Longrightarrow> attempt \<noteq> maxRetries \<Longrightarrow>
   solution_loop net url options maxRetries attempt lastError w =
   solution_loop net url options maxRetries (attempt + 1) (Some error)
     (sleep (2 ^ attempt * 1000) w1)"
  by (subst solution_loop.simps) simp

text \<open>
  One round of the loop of Solution 2.3, by the outcome of its attempt: it ends the loop
  after one call, or it sleeps and goes on.
\<close>

lemma solution_loop_cases:
  assumes "attempt \<le> maxRetries"
  obtains (stop) r w1 where
      "solution_loop net url options maxRetries attempt lastError w = (r, w1)"
      "calls w1 = calls w @ [(url, options)]" "sleeps w1 = sleeps w"
  | (retry) error w1 where
      "solution_attempt net w url options = (Inl error, w1)"
      "no_retry error = Inr False" "attempt < maxRetries"
      "calls w1 = calls w @ [(url, options)]" "sleeps w1 = sleeps w"
      "solution_loop net url options maxRetries attempt lastError w =
       solution_loop net url options maxRetries (attempt + 1) (Some error)
         (sleep (2 ^ attempt * 1000) w1)"
proof -
  obtain r w1 where a: "solution_attempt net w url options = (r, w1)" by force
  have c1: "calls w1 = calls w @ [(url, options)]"
    using solution_attempt_calls [of net w url options] a by simp
  have s1: "sleeps w1 = sleeps w"
    using solution_attempt_sleeps [of net w url options] a by simp
  show thesis
  proof (cases r)
    case (Inr v)
    then show thesis using stop solution_loop_ok [OF assms] a c1 s1 by blast
  next
    case (Inl error)
    show thesis
    proof (cases "no_retry error")
      case threw: (Inl e)
      then show thesis using stop solution_loop_test_throws [OF assms] a c1 s1 Inl by blast
    next
      case (Inr rethrow)
      show thesis
      proof (cases rethrow)
        case True
        then have "no_retry error = Inr True" using Inr by simp
        moreover have "solution_attempt net w url options = (Inl error, w1)" using a Inl by simp
        ultimately show thesis using stop solution_loop_rethrow [OF assms] c1 s1 by blast
      next
        case False
        then have nr: "no_retry error = Inr False" using Inr by simp
        have att: "solution_attempt net w url options = (Inl error, w1)" using a Inl by simp
        show thesis
        proof (cases "attempt = maxRetries")
          case True
          then show thesis
            using stop solution_loop_exhausted [OF assms att nr] c1 s1 by blast
        next
          case ne: False
          then have "attempt < maxRetries" using assms by simp
          then show thesis
            using retry [of error w1] solution_loop_retry [OF assms att nr ne] c1 s1 nr att
            by blast
        qed
      qed
    qed
  qed
qed

lemma solution_loop_calls_ge:
  "length (calls w) + (if attempt \<le> maxRetries then 1 else 0)
     \<le> length (calls (snd (solution_loop net url options maxRetries attempt lastError w)))"
proof (induction "Suc maxRetries - attempt" arbitrary: attempt lastError w)
  case 0
  then show ?case by (simp add: solution_loop_done)
next
  case (Suc k)
  then have le: "attempt \<le> maxRetries" by arith
  from le show ?case
  proof (cases rule: solution_loop_cases [where net = net and w = w and url = url
             and options = options and lastError = lastError])
    case (stop r w1)
    then show ?thesis using le by simp
  next
    case (retry error w1)
    have k: "k = Suc maxRetries - (attempt + 1)" using Suc.hyps(2) by arith
    have "length (calls (sleep (2 ^ attempt * 1000) w1))
            \<le> length (calls (snd (solution_loop net url options maxRetries (attempt + 1)
                   (Some error) (sleep (2 ^ attempt * 1000) w1))))"
      using Suc.hyps(1) [OF k, of "sleep (2 ^ attempt * 1000) w1" "Some error"] retry(3) by simp
    then show ?thesis using retry le by simp
  qed
qed

lemma solution_loop_sleeps:
  "sleeps (snd (solution_loop net url options maxRetries attempt lastError w)) =
     sleeps w @ map (\<lambda>n. 2 ^ n * 1000)
       [attempt..<attempt + (length (calls (snd (solution_loop net url options maxRetries
                                                     attempt lastError w)))
                             - length (calls w) - 1)]"
proof (induction "Suc maxRetries - attempt" arbitrary: attempt lastError w)
  case 0
  then show ?case by (simp add: solution_loop_done)
next
  case (Suc k)
  then have le: "attempt \<le> maxRetries" by arith
  from le show ?case
  proof (cases rule: solution_loop_cases [where net = net and w = w and url = url
             and options = options and lastError = lastError])
    case (stop r w1)
    then show ?thesis by simp
  next
    case (retry error w1)
    define res where "res = solution_loop net url options maxRetries (attempt + 1)
                              (Some error) (sleep (2 ^ attempt * 1000) w1)"
    have eq: "solution_loop net url options maxRetries attempt lastError w = res"
      unfolding res_def using retry(6) .
    have k: "k = Suc maxRetries - (attempt + 1)" using Suc.hyps(2) by arith
    have ih: "sleeps (snd res) = sleeps (sleep (2 ^ attempt * 1000) w1) @ map (\<lambda>n. 2 ^ n * 1000)
                [attempt + 1..<attempt + 1 + (length (calls (snd res))
                      - length (calls (sleep (2 ^ attempt * 1000) w1)) - 1)]"
      unfolding res_def
      using Suc.hyps(1) [OF k, of "Some error" "sleep (2 ^ attempt * 1000) w1"] .
    have ge: "length (calls (sleep (2 ^ attempt * 1000) w1)) + 1 \<le> length (calls (snd res))"
      unfolding res_def
      using solution_loop_calls_ge [of "sleep (2 ^ attempt * 1000) w1" "attempt + 1" maxRetries
              net url options "Some error"] retry(3)
      by simp
    then obtain j where j: "length (calls (snd res)) = length (calls w) + 2 + j"
      using retry(4) by (metis add.assoc add.commute le_Suc_ex one_add_one sleep_calls
          length_append_singleton Suc_eq_plus1)
    show ?thesis
      unfolding eq using ih j retry(4,5)
      by (simp add: upt_conv_Cons del: upt_Suc)
  qed
qed

lemma fetch_js_answer:
  assumes "net (length (calls w)) url init = (Answer st txt b, lat)" and "signal_of init = None"
  shows "fetch_js net w url init =
           (Inr (Response st txt b False),
            w\<lparr>calls := calls w @ [(url, init)], now := now w + int lat\<rparr>)"
  using assms by (simp add: fetch_js_def)

lemma fetch_js_failure:
  assumes "net (length (calls w)) url init = (Failure e, lat)" and "signal_of init = None"
  shows "fetch_js net w url init =
           (Inl e, w\<lparr>calls := calls w @ [(url, init)], now := now w + int lat\<rparr>)"
  using assms by (simp add: fetch_js_def)

lemma string_of_nat_500: "string_of_nat 500 = ''500''"
  by code_simp

lemma string_of_nat_404: "string_of_nat 404 = ''404''"
  by code_simp

lemma no_retry_Err:
  "no_retry (Err n m) =
     Inr (str_includes m ''Client error'' \<or> (n \<noteq> ''TypeError'' \<and> \<not> str_includes m ''Server error''))"
  by (simp add: no_retry_def message_of_def name_of_def)


lemma no_retry_server_500:
  "no_retry (Err ''Error'' (''Server error 500: '' @ txt)) = Inr (str_includes txt ''Client error'')"
  by (simp add: no_retry_Err)


lemma failed_after_Err:
  "failed_after maxRetries (Err n m) =
     Err ''Error'' (''Failed after '' @ string_of_nat (maxRetries + 1) @ '' attempts: '' @ m)"
  by (simp add: failed_after_def message_of_def)


lemma solution_attempt_500:
  assumes "net (length (calls w)) url options = (Answer 500 txt b, lat)"
      and "signal_of options = None"
  shows "solution_attempt net w url options =
           (Inl (Err ''Error'' (''Server error 500: '' @ txt)),
            w\<lparr>calls := calls w @ [(url, options)], now := now w + int lat\<rparr>)"
  using assms by (simp add: solution_attempt_def fetch_js_answer ok_def string_of_nat_500)

lemma guide_attempt_not_ok:
  assumes "net (length (calls w)) url options = (Answer st txt b, lat)"
      and "signal_of options = None" and "\<not> (200 \<le> st \<and> st \<le> 299)"
  shows "guide_attempt net w url options =
           (Inl (Err ''Error'' (''HTTP '' @ string_of_nat st)),
            w\<lparr>calls := calls w @ [(url, options)], now := now w + int lat\<rparr>)"
  using assms by (auto simp add: guide_attempt_def fetch_js_answer ok_def)

text \<open>
  The tutorial's loop against a transport that always answers with the same status outside
  200-299: it throws after the attempts \<open>i, ..., retries - 1\<close>.
\<close>

lemma guide_loop_always_fails:
  assumes net: "\<forall>n. \<exists>b lat. net n url options = (Answer st txt b, lat)"
      and sig: "signal_of options = None"
      and bad: "\<not> (200 \<le> st \<and> st \<le> 299)"
  shows "i < retries \<Longrightarrow>
         fst (guide_loop net url options retries i delay w) = Inl (Err ''Error'' (''HTTP '' @ string_of_nat st))
         \<and> length (calls (snd (guide_loop net url options retries i delay w)))
             = length (calls w) + (retries - i)"
proof (induction "retries - i" arbitrary: i delay w)
  case 0
  then show ?case by simp
next
  case (Suc k)
  obtain b lat where r: "net (length (calls w)) url options = (Answer st txt b, lat)"
    using net by blast
  let ?w1 = "w\<lparr>calls := calls w @ [(url, options)], now := now w + int lat\<rparr>"
  have a: "guide_attempt net w url options = (Inl (Err ''Error'' (''HTTP '' @ string_of_nat st)), ?w1)"
    using guide_attempt_not_ok [where net = net and w = w, OF r sig bad] .
  show ?case
  proof (cases "i = retries - 1")
    case True
    then have "retries - i = 1" using Suc.prems by arith
    then show ?thesis
      using guide_loop_last [OF Suc.prems a True] by simp
  next
    case False
    then have lt: "i + 1 < retries" using Suc.prems by arith
    have k: "k = retries - (i + 1)" using Suc.hyps(2) by arith
    have ih: "fst (guide_loop net url options retries (i + 1) (delay * 2) (sleep delay ?w1))
                = Inl (Err ''Error'' (''HTTP '' @ string_of_nat st))
              \<and> length (calls (snd (guide_loop net url options retries (i + 1) (delay * 2) (sleep delay ?w1))))
                = length (calls (sleep delay ?w1)) + (retries - (i + 1))"
      using Suc.hyps(1) [OF k lt] .
    show ?thesis
      using guide_loop_retry [OF Suc.prems a False, of delay] ih lt by simp
  qed
qed

text \<open>
  The loop of Solution 2.3 against a transport that always answers 500 with a status text
  that does not hold the words of the client-error test.
\<close>

lemma solution_loop_always_500:
  assumes net: "\<forall>n. \<exists>b lat. net n url options = (Answer 500 txt b, lat)"
      and sig: "signal_of options = None"
      and clean: "\<not> str_includes txt ''Client error''"
  shows "attempt \<le> maxRetries \<Longrightarrow>
         fst (solution_loop net url options maxRetries attempt lastError w)
           = Inl (Err ''Error'' (''Failed after '' @ string_of_nat (maxRetries + 1)
                                  @ '' attempts: Server error 500: '' @ txt))
         \<and> length (calls (snd (solution_loop net url options maxRetries attempt lastError w)))
             = length (calls w) + (maxRetries + 1 - attempt)"
proof (induction "maxRetries - attempt" arbitrary: attempt lastError w)
  case 0
  then have eq: "attempt = maxRetries" by simp
  obtain b lat where r: "net (length (calls w)) url options = (Answer 500 txt b, lat)"
    using net by blast
  have a: "solution_attempt net w url options =
           (Inl (Err ''Error'' (''Server error 500: '' @ txt)),
            w\<lparr>calls := calls w @ [(url, options)], now := now w + int lat\<rparr>)"
    using solution_attempt_500 [where net = net and w = w, OF r sig] .
  have nr: "no_retry (Err ''Error'' (''Server error 500: '' @ txt)) = Inr False"
    using clean no_retry_server_500 [of "txt"] by simp
  show ?case
    using solution_loop_exhausted [OF "0.prems" a nr eq, of lastError] eq
    by (simp add: failed_after_Err)
next
  case (Suc k)
  obtain b lat where r: "net (length (calls w)) url options = (Answer 500 txt b, lat)"
    using net by blast
  let ?w1 = "w\<lparr>calls := calls w @ [(url, options)], now := now w + int lat\<rparr>"
  let ?e = "Err ''Error'' (''Server error 500: '' @ txt)"
  have ne: "attempt \<noteq> maxRetries" and lt: "attempt + 1 \<le> maxRetries"
    using Suc.hyps(2) by arith+
  have k: "k = maxRetries - (attempt + 1)" using Suc.hyps(2) by arith
  have nr: "no_retry ?e = Inr False" using clean no_retry_server_500 [of "txt"] by simp
  have a: "solution_attempt net w url options = (Inl ?e, ?w1)"
    using solution_attempt_500 [where net = net and w = w, OF r sig] .
  have step: "solution_loop net url options maxRetries attempt lastError w =
              solution_loop net url options maxRetries (attempt + 1) (Some ?e)
                (sleep (2 ^ attempt * 1000) ?w1)"
    using solution_loop_retry [OF Suc.prems a nr ne] .
  show ?case
    unfolding step
    using Suc.hyps(1) [OF k lt, of "Some ?e" "sleep (2 ^ attempt * 1000) ?w1"] lt
    by simp
qed




text \<open>
  C4. The delay awaited before the \<open>(n+1)\<close>-th retry is \<open>base * 2^n\<close>. In the tutorial's
  \<open>fetchWithRetry\<close>, started with the delay \<open>base\<close>, the delays awaited in a run are
  \<open>base, 2 * base, 4 * base, ...\<close>, one between two consecutive calls of \<open>fetch\<close>; in
  Solution 2.3 they are the same with the base 1000; and a run makes at least one call
  (the tutorial's when \<open>retries\<close> is not 0). Against a transport that always answers 500
  every retry happens: the tutorial's run with \<open>retries = N\<close> awaits the \<open>N - 1\<close> delays
  \<open>base * 2^0, ..., base * 2^(N-2)\<close>, the run of Solution 2.3 with \<open>maxRetries = N\<close> the
  \<open>N\<close> delays \<open>1000 * 2^0, ..., 1000 * 2^(N-1)\<close>.
\<close>

theorem backoff_delays:
  "sleeps (snd (fetchWithRetry_guide net w url options retries base)) =
     sleeps w @ map (\<lambda>n. base * 2 ^ n)
       [0..<length (calls (snd (fetchWithRetry_guide net w url options retries base)))
            - length (calls w) - 1]
   \<and> sleeps (snd (fetchWithRetry_solution net w url options maxRetries)) =
     sleeps w @ map (\<lambda>n. 1000 * 2 ^ n)
       [0..<length (calls (snd (fetchWithRetry_solution net w url options maxRetries)))
            - length (calls w) - 1]
   \<and> (0 < retries \<longrightarrow>
        length (calls w) < length (calls (snd (fetchWithRetry_guide net w url options retries base))))
   \<and> length (calls w) < length (calls (snd (fetchWithRetry_solution net w url options maxRetries)))
   \<and> ((\<forall>n. \<exists>b lat. net n url options = (Answer 500 reason b, lat))
        \<and> signal_of options = None \<and> \<not> str_includes reason ''Client error'' \<longrightarrow>
        sleeps (snd (fetchWithRetry_guide net w url options retries base))
          = sleeps w @ map (\<lambda>n. base * 2 ^ n) [0..<retries - 1]
      \<and> sleeps (snd (fetchWithRetry_solution net w url options maxRetries))
          = sleeps w @ map (\<lambda>n. 1000 * 2 ^ n) [0..<maxRetries])"
proof -
  let ?G = "fetchWithRetry_guide net w url options retries base"
  let ?S = "fetchWithRetry_solution net w url options maxRetries"
  have g: "sleeps (snd ?G) = sleeps w @ map (\<lambda>n. base * 2 ^ n)
             [0..<length (calls (snd ?G)) - length (calls w) - 1]"
    using guide_loop_sleeps [of net url options retries 0 base w]
    by (simp add: fetchWithRetry_guide_def)
  have s: "sleeps (snd ?S) = sleeps w @ map (\<lambda>n. 1000 * 2 ^ n)
             [0..<length (calls (snd ?S)) - length (calls w) - 1]"
    using solution_loop_sleeps [of net url options maxRetries 0 None w]
    by (simp add: fetchWithRetry_solution_def mult.commute)
  have gc: "0 < retries \<longrightarrow> length (calls w) < length (calls (snd ?G))"
    using guide_loop_calls_ge [of w 0 retries net url options base]
    by (auto simp: fetchWithRetry_guide_def)
  have sc: "length (calls w) < length (calls (snd ?S))"
    using solution_loop_calls_ge [of w 0 maxRetries net url options None]
    by (simp add: fetchWithRetry_solution_def)
  have always: "sleeps (snd ?G) = sleeps w @ map (\<lambda>n. base * 2 ^ n) [0..<retries - 1]
              \<and> sleeps (snd ?S) = sleeps w @ map (\<lambda>n. 1000 * 2 ^ n) [0..<maxRetries]"
    if net: "\<forall>n. \<exists>b lat. net n url options = (Answer 500 reason b, lat)"
      and sig: "signal_of options = None" and clean: "\<not> str_includes reason ''Client error''"
  proof -
    have bad: "\<not> (200 \<le> (500::nat) \<and> (500::nat) \<le> 299)" by simp
    have "length (calls (snd ?S)) = length (calls w) + (maxRetries + 1)"
      using solution_loop_always_500 [where net = net and url = url and options = options,
              OF net sig clean, of 0 maxRetries None w]
      by (simp add: fetchWithRetry_solution_def)
    then have s': "sleeps (snd ?S) = sleeps w @ map (\<lambda>n. 1000 * 2 ^ n) [0..<maxRetries]"
      using s by simp
    have g': "sleeps (snd ?G) = sleeps w @ map (\<lambda>n. base * 2 ^ n) [0..<retries - 1]"
    proof (cases "0 < retries")
      case True
      have "length (calls (snd ?G)) = length (calls w) + retries"
        using guide_loop_always_fails [where net = net and url = url and options = options,
                OF net sig bad, of 0 retries base w] True
        by (simp add: fetchWithRetry_guide_def)
      then show ?thesis using g by simp
    next
      case False
      then show ?thesis by (simp add: fetchWithRetry_guide_def guide_loop_done)
    qed
    show ?thesis using g' s' by blast
  qed
  show ?thesis using g s gc sc always by blast
qed

theorem backoff_delays_witness:
  "(\<forall>n. \<exists>b lat. always_500 n ''/api/data'' (JObj []) = (Answer 500 ''Internal Server Error'' b, lat))
   \<and> signal_of (JObj []) = None
   \<and> \<not> str_includes ''Internal Server Error'' ''Client error''
   \<and> (0::nat) < 4
   \<and> length (calls (snd (fetchWithRetry_guide always_500 fresh_world ''/api/data'' (JObj []) 4 250))) = 4
   \<and> sleeps (snd (fetchWithRetry_guide always_500 fresh_world ''/api/data'' (JObj []) 4 250))
       = [250, 500, 1000]
   \<and> length (calls (snd (fetchWithRetry_solution always_500 fresh_world ''/api/data'' (JObj []) 3))) = 4
   \<and> sleeps (snd (fetchWithRetry_solution always_500 fresh_world ''/api/data'' (JObj []) 3))
       = [1000, 2000, 4000]"
proof -
  have h1: "\<forall>n. \<exists>b lat. always_500 n ''/api/data'' (JObj []) = (Answer 500 ''Internal Server Error'' b, lat)"
    by (simp add: always_500_def)
  have h2: "signal_of (JObj []) = None" by (simp add: signal_of_def)
  have h3: "\<not> str_includes ''Internal Server Error'' ''Client error''" by simp
  have none: "sleeps fresh_world = []" "length (calls fresh_world) = 0"
    by (simp_all add: fresh_world_def)
  have up3: "[0..<4 - 1] = [0, 1, 2::nat]" "[0..<3] = [0, 1, 2::nat]"
    by (simp_all add: upt_conv_Cons)
  note inst = backoff_delays [where net = always_500 and w = fresh_world and url = "''/api/data''"
      and options = "JObj []" and retries = 4 and base = 250 and maxRetries = 3
      and reason = "''Internal Server Error''"]
  note delays_guide = inst [THEN conjunct1]
  note delays_solution = inst [THEN conjunct2, THEN conjunct1]
  note failing = inst [THEN conjunct2, THEN conjunct2, THEN conjunct2, THEN conjunct2]
  have both: "sleeps (snd (fetchWithRetry_guide always_500 fresh_world ''/api/data'' (JObj []) 4 250))
          = sleeps fresh_world @ map (\<lambda>n. 250 * 2 ^ n) [0..<4 - 1]
      \<and> sleeps (snd (fetchWithRetry_solution always_500 fresh_world ''/api/data'' (JObj []) 3))
          = sleeps fresh_world @ map (\<lambda>n. 1000 * 2 ^ n) [0..<3]"
    using failing h1 h2 h3 by blast
  have g: "sleeps (snd (fetchWithRetry_guide always_500 fresh_world ''/api/data'' (JObj []) 4 250))
       = [250, 500, 1000]"
    using both none up3 by simp
  have s: "sleeps (snd (fetchWithRetry_solution always_500 fresh_world ''/api/data'' (JObj []) 3))
       = [1000, 2000, 4000]"
    using both none up3 by simp
  have "length (sleeps (snd (fetchWithRetry_guide always_500 fresh_world ''/api/data'' (JObj []) 4 250)))
       = length (sleeps fresh_world @ map (\<lambda>n. 250 * 2 ^ n)
           [0..<length (calls (snd (fetchWithRetry_guide always_500 fresh_world ''/api/data'' (JObj []) 4 250)))
                - length (calls fresh_world) - 1])"
    using delays_guide by (rule arg_cong)
  then have gl: "3 = length (calls (snd (fetchWithRetry_guide always_500 fresh_world ''/api/data'' (JObj []) 4 250))) - 1"
    unfolding g using none by simp
  have "length (sleeps (snd (fetchWithRetry_solution always_500 fresh_world ''/api/data'' (JObj []) 3)))
       = length (sleeps fresh_world @ map (\<lambda>n. 1000 * 2 ^ n)
           [0..<length (calls (snd (fetchWithRetry_solution always_500 fresh_world ''/api/data'' (JObj []) 3)))
                - length (calls fresh_world) - 1])"
    using delays_solution by (rule arg_cong)
  then have sl: "3 = length (calls (snd (fetchWithRetry_solution always_500 fresh_world ''/api/data'' (JObj []) 3))) - 1"
    unfolding s using none by simp
  have g4: "length (calls (snd (fetchWithRetry_guide always_500 fresh_world ''/api/data'' (JObj []) 4 250))) = 4"
    using gl by arith
  have s4: "length (calls (snd (fetchWithRetry_solution always_500 fresh_world ''/api/data'' (JObj []) 3))) = 4"
    using sl by arith
  show ?thesis using h1 h2 h3 g s g4 s4 by simp
qed

text \<open>
  C2, as stated, fails on the tutorial's \<open>fetchWithRetry\<close>, whose parameter counts the
  attempts: with 3 and a transport that always answers 500 it calls \<open>fetch\<close> 3 times, not 4.
\<close>

theorem retry_bound_counterexample:
  "length (calls (snd (fetchWithRetry_guide always_500 fresh_world ''/api/data'' (JObj []) 3 1000))) = 3
   \<and> length (calls (snd (fetchWithRetry_guide always_500 fresh_world ''/api/data'' (JObj []) 3 1000)))
       \<noteq> 3 + 1"
proof -
  have "\<forall>n. \<exists>b lat. always_500 n ''/api/data'' (JObj []) = (Answer 500 ''Internal Server Error'' b, lat)"
    by (simp add: always_500_def)
  moreover have "signal_of (JObj []) = None" by (simp add: signal_of_def)
  moreover have "\<not> (200 \<le> (500::nat) \<and> (500::nat) \<le> 299)" by simp
  ultimately show ?thesis
    using guide_loop_always_fails [of always_500 "''/api/data''" "JObj []" 500
            "''Internal Server Error''" 0 3 1000 fresh_world]
    by (simp add: fetchWithRetry_guide_def fresh_world_def)
qed

text \<open>
  C2, amended. Against a transport that always answers 500 (with a status text that does
  not hold the words \<open>Client error\<close>), \<open>fetchWithRetry\<close> of Solution 2.3 with
  \<open>maxRetries = N\<close> calls \<open>fetch\<close> exactly \<open>N + 1\<close> times and then throws the error
  \<open>Failed after N+1 attempts: Server error 500: ...\<close>; the tutorial's \<open>fetchWithRetry\<close>
  with \<open>retries = N\<close>, \<open>N\<close> at least 1, calls \<open>fetch\<close> exactly \<open>N\<close> times and then throws
  \<open>HTTP 500\<close>.
\<close>

theorem retry_bound:
  assumes "\<forall>n. \<exists>b lat. net n url options = (Answer 500 txt b, lat)"
      and "signal_of options = None"
      and "\<not> str_includes txt ''Client error''"
  shows "fst (fetchWithRetry_solution net w url options N)
           = Inl (Err ''Error'' (''Failed after '' @ string_of_nat (N + 1)
                                  @ '' attempts: Server error 500: '' @ txt))
       \<and> length (calls (snd (fetchWithRetry_solution net w url options N)))
           = length (calls w) + (N + 1)
       \<and> (0 < N \<longrightarrow>
            fst (fetchWithRetry_guide net w url options N delay) = Inl (Err ''Error'' ''HTTP 500'')
          \<and> length (calls (snd (fetchWithRetry_guide net w url options N delay)))
              = length (calls w) + N)"
proof -
  have "\<not> (200 \<le> (500::nat) \<and> (500::nat) \<le> 299)" by simp
  then have "0 < N \<Longrightarrow>
        fst (guide_loop net url options N 0 delay w) = Inl (Err ''Error'' (''HTTP '' @ string_of_nat 500))
      \<and> length (calls (snd (guide_loop net url options N 0 delay w))) = length (calls w) + (N - 0)"
    using guide_loop_always_fails [where net = net and url = url and options = options, OF assms(1,2), of 0 N delay w] by blast
  then show ?thesis
    using solution_loop_always_500 [where net = net and url = url and options = options, OF assms, of 0 N None w]
    by (simp add: fetchWithRetry_guide_def fetchWithRetry_solution_def string_of_nat_500)
qed

theorem retry_bound_witness:
  "(\<forall>n. \<exists>b lat. always_500 n ''/api/data'' (JObj []) = (Answer 500 ''Internal Server Error'' b, lat))
   \<and> signal_of (JObj []) = None
   \<and> \<not> str_includes ''Internal Server Error'' ''Client error''
   \<and> fst (fetchWithRetry_solution always_500 fresh_world ''/api/data'' (JObj []) 3)
       = Inl (Err ''Error'' ''Failed after 4 attempts: Server error 500: Internal Server Error'')
   \<and> length (calls (snd (fetchWithRetry_solution always_500 fresh_world ''/api/data'' (JObj []) 3))) = 4
   \<and> length (calls (snd (fetchWithRetry_guide always_500 fresh_world ''/api/data'' (JObj []) 3 1000))) = 3"
proof -
  have h1: "\<forall>n. \<exists>b lat. always_500 n ''/api/data'' (JObj []) = (Answer 500 ''Internal Server Error'' b, lat)"
    by (simp add: always_500_def)
  have h2: "signal_of (JObj []) = None" by (simp add: signal_of_def)
  have h3: "\<not> str_includes ''Internal Server Error'' ''Client error''" by simp
  have four: "string_of_nat (3 + 1) = ''4''" by code_simp
  show ?thesis
    using h1 h2 h3 retry_bound [where net = always_500 and url = "''/api/data''" and options = "JObj []", OF h1 h2 h3, of fresh_world 3 1000] four
    by (simp add: fresh_world_def)
qed




section \<open>Properties of the caches\<close>

lemma string_of_nat_nonempty: "string_of_nat n \<noteq> []"
  by (subst string_of_nat.simps) simp

lemma string_of_int_nonempty: "string_of_int i \<noteq> []"
  by (simp add: string_of_int_def string_of_nat_nonempty)

lemma stringify_text_nonempty: "stringify_text v \<noteq> []"
  by (cases v) (simp_all add: stringify_text_def string_of_int_nonempty json_quote_def)

lemma cache_key_not_url: "url @ stringify_text v \<noteq> url"
  using stringify_text_nonempty [of v] by simp

lemma default_options_idem [simp]: "default_options (default_options v) = default_options v"
  by (simp add: default_options_def)

lemma getCacheKey_default [simp]: "getCacheKey url (default_options v) = getCacheKey url v"
  by (simp add: getCacheKey_def)









lemma RequestCache_valid:
  assumes "cache c (url @ stringify_text (default_options options)) = Some e"
      and "now w - timestamp e < ttl c"
  shows "RequestCache_fetch net c w url options = (Inr (data e), c, w)"
  using assms by (simp add: RequestCache_fetch_def Let_def)



text \<open>
  C10, as stated, fails in its clause that \<open>delete\<close> leaves the cache map unchanged:
  after \<open>fetch('/x')\<close> has stored its entry under the key \<open>/x{}\<close>, and
  \<open>fetch('/x{}')\<close> its own under \<open>/x{}{}\<close>, \<open>delete('/x{}')\<close> removes the entry of
  \<open>fetch('/x')\<close>.
\<close>

theorem delete_unchanged_counterexample:
  "cache (fst (snd fetched_x)) ''/x{}''
     = Some \<lparr>data = JArr [JObj [(''id'', JNum 1)]], timestamp = 20\<rparr>
   \<and> cache (fst (snd (RequestCache_fetch users_200 (fst (snd fetched_x)) (snd (snd fetched_x))
                          ''/x{}'' JUndefined))) ''/x{}''
     = Some \<lparr>data = JArr [JObj [(''id'', JNum 1)]], timestamp = 20\<rparr>
   \<and> cache (RequestCache_delete
              (fst (snd (RequestCache_fetch users_200 (fst (snd fetched_x)) (snd (snd fetched_x))
                           ''/x{}'' JUndefined))) ''/x{}'') ''/x{}''
     = None
   \<and> RequestCache_delete
        (fst (snd (RequestCache_fetch users_200 (fst (snd fetched_x)) (snd (snd fetched_x))
                     ''/x{}'' JUndefined))) ''/x{}''
     \<noteq> fst (snd (RequestCache_fetch users_200 (fst (snd fetched_x)) (snd (snd fetched_x))
                     ''/x{}'' JUndefined))"
proof -
  let ?second = "RequestCache_fetch users_200 (fst (snd fetched_x)) (snd (snd fetched_x))
                   ''/x{}'' JUndefined"
  have first: "fetched_x =
      (Inr (JArr [JObj [(''id'', JNum 1)]]),
       \<lparr>cache = [''/x{}'' \<mapsto> \<lparr>data = JArr [JObj [(''id'', JNum 1)]], timestamp = 20\<rparr>],
        ttl = 60000\<rparr>,
       \<lparr>calls = [(''/x'', JObj [])], now = 20, sleeps = []\<rparr>)"
    by (simp add: fetched_x_def RequestCache_fetch_def RequestCache_fetch_fresh_def
          default_options_def stringify_text_def new_cache_def fresh_world_def users_200_def
          fetch_js_def signal_of_def response_json_def json_body_def)
  have a: "cache (fst (snd fetched_x)) ''/x{}''
     = Some \<lparr>data = JArr [JObj [(''id'', JNum 1)]], timestamp = 20\<rparr>"
    unfolding first by simp
  have b: "cache (fst (snd ?second)) ''/x{}''
     = Some \<lparr>data = JArr [JObj [(''id'', JNum 1)]], timestamp = 20\<rparr>"
    unfolding first
    by (simp add: RequestCache_fetch_def RequestCache_fetch_fresh_def Let_def
          default_options_def stringify_text_def users_200_def
          fetch_js_def signal_of_def response_json_def json_body_def)
  have c: "cache (RequestCache_delete (fst (snd ?second)) ''/x{}'') ''/x{}'' = None"
    by (simp add: RequestCache_delete_def)
  have "RequestCache_delete (fst (snd ?second)) ''/x{}'' \<noteq> fst (snd ?second)"
  proof
    assume "RequestCache_delete (fst (snd ?second)) ''/x{}'' = fst (snd ?second)"
    then have "cache (RequestCache_delete (fst (snd ?second)) ''/x{}'') ''/x{}''
                 = cache (fst (snd ?second)) ''/x{}''"
      by simp
    then show False using b c by simp
  qed
  then show ?thesis using a b c by blast
qed

text \<open>
  C10, amended. \<open>RequestCache.fetch(url, options)\<close> stores under the key \<open>url\<close> followed
  by \<open>JSON.stringify(options)\<close>, which is never empty (\<open>{}\<close> for the default options), and
  \<open>delete(url)\<close> removes the key \<open>url\<close>: the keys differ, so \<open>delete(url)\<close> leaves the
  entry of \<open>fetch(url, options)\<close> where it is, and a later \<open>fetch(url, options)\<close> within
  the time to live still returns the cached data, without a call of the transport. The
  cache map is unchanged by \<open>delete(url)\<close> exactly when the cache held nothing under the
  bare \<open>url\<close> before the \<open>fetch\<close> (a new cache, for one).
\<close>

theorem delete_misses_entry:
  "url @ stringify_text (default_options options) \<noteq> url
   \<and> stringify_text (default_options JUndefined) = ''{}''
   \<and> cache (RequestCache_delete (fst (snd (RequestCache_fetch net c w url options))) url)
        (url @ stringify_text (default_options options))
      = cache (fst (snd (RequestCache_fetch net c w url options)))
          (url @ stringify_text (default_options options))
   \<and> (RequestCache_delete (fst (snd (RequestCache_fetch net c w url options))) url
        = fst (snd (RequestCache_fetch net c w url options)))
     = (cache c url = None)
   \<and> (\<forall>d. fst (RequestCache_fetch net c w url options) = Inr d \<longrightarrow>
        (\<exists>e. cache (fst (snd (RequestCache_fetch net c w url options)))
                (url @ stringify_text (default_options options)) = Some e
            \<and> data e = d
            \<and> (\<forall>net' w'. now w' - timestamp e < ttl c \<longrightarrow>
                  RequestCache_fetch net'
                    (RequestCache_delete (fst (snd (RequestCache_fetch net c w url options))) url)
                    w' url options
                  = (Inr d,
                     RequestCache_delete (fst (snd (RequestCache_fetch net c w url options))) url,
                     w'))))"
proof -
  let ?k = "url @ stringify_text (default_options options)"
  let ?run = "RequestCache_fetch net c w url options"
  let ?c' = "fst (snd ?run)"
  have ne: "?k \<noteq> url" using cache_key_not_url .
  have braces: "stringify_text (default_options JUndefined) = ''{}''"
    by (simp add: default_options_def stringify_text_def)
  have del: "\<And>c0. cache (RequestCache_delete c0 url) ?k = cache c0 ?k"
    using ne by (simp add: RequestCache_delete_def)
  have ttl_del: "\<And>c0. ttl (RequestCache_delete c0 url) = ttl c0"
    by (simp add: RequestCache_delete_def)
  have same_url: "cache ?c' url = cache c url"
    using ne
    by (auto simp: RequestCache_fetch_def RequestCache_fetch_fresh_def Let_def
             split: prod.splits sum.splits option.splits)
  have new: "(RequestCache_delete ?c' url = ?c') = (cache c url = None)"
  proof
    assume "RequestCache_delete ?c' url = ?c'"
    then have "cache (RequestCache_delete ?c' url) url = cache ?c' url" by simp
    then show "cache c url = None" using same_url by (simp add: RequestCache_delete_def)
  next
    assume "cache c url = None"
    then have "cache ?c' url = None" using same_url by simp
    then show "RequestCache_delete ?c' url = ?c'"
      by (simp add: RequestCache_delete_def fun_upd_idem)
  qed
  have ttl_run: "ttl ?c' = ttl c"
    by (auto simp: RequestCache_fetch_def RequestCache_fetch_fresh_def Let_def
             split: prod.splits sum.splits option.splits)
  have later: "\<forall>d. fst ?run = Inr d \<longrightarrow>
        (\<exists>e. cache ?c' ?k = Some e \<and> data e = d
            \<and> (\<forall>net' w'. now w' - timestamp e < ttl c \<longrightarrow>
                  RequestCache_fetch net' (RequestCache_delete ?c' url) w' url options
                  = (Inr d, RequestCache_delete ?c' url, w')))"
  proof (intro allI impI)
    fix d assume ok: "fst ?run = Inr d"
    have "\<exists>e. cache ?c' ?k = Some e \<and> data e = d"
      using ok
      by (auto simp: RequestCache_fetch_def RequestCache_fetch_fresh_def Let_def
               split: prod.splits sum.splits option.splits if_splits)
    then obtain e where e: "cache ?c' ?k = Some e" "data e = d" by blast
    have "\<forall>net' w'. now w' - timestamp e < ttl c \<longrightarrow>
                  RequestCache_fetch net' (RequestCache_delete ?c' url) w' url options
                  = (Inr d, RequestCache_delete ?c' url, w')"
    proof (intro allI impI)
      fix net' :: transport and w' :: world
      assume "now w' - timestamp e < ttl c"
      then show "RequestCache_fetch net' (RequestCache_delete ?c' url) w' url options
                  = (Inr d, RequestCache_delete ?c' url, w')"
        using RequestCache_valid [of "RequestCache_delete ?c' url" url options e w' net']
              del [of ?c'] e ttl_del [of ?c'] ttl_run
        by simp
    qed
    then show "\<exists>e. cache ?c' ?k = Some e \<and> data e = d
            \<and> (\<forall>net' w'. now w' - timestamp e < ttl c \<longrightarrow>
                  RequestCache_fetch net' (RequestCache_delete ?c' url) w' url options
                  = (Inr d, RequestCache_delete ?c' url, w'))"
      using e by blast
  qed
  show ?thesis using ne braces del [of ?c'] new later by blast
qed

theorem delete_misses_entry_witness:
  "cache (new_cache 60000) ''/api/users'' = None
   \<and> RequestCache_delete
        (fst (snd (RequestCache_fetch users_200 (new_cache 60000) fresh_world ''/api/users''
                     JUndefined))) ''/api/users''
      = fst (snd (RequestCache_fetch users_200 (new_cache 60000) fresh_world ''/api/users''
                    JUndefined))
   \<and> fst (RequestCache_fetch users_200 (new_cache 60000) fresh_world ''/api/users'' JUndefined)
     = Inr (JArr [JObj [(''id'', JNum 1)]])
   \<and> cache (RequestCache_delete
              (fst (snd (RequestCache_fetch users_200 (new_cache 60000) fresh_world ''/api/users''
                           JUndefined))) ''/api/users'') ''/api/users{}''
       = Some \<lparr>data = JArr [JObj [(''id'', JNum 1)]], timestamp = 20\<rparr>
   \<and> now late_world - 20 < ttl (new_cache 60000)
   \<and> RequestCache_fetch offline
        (RequestCache_delete
           (fst (snd (RequestCache_fetch users_200 (new_cache 60000) fresh_world ''/api/users''
                        JUndefined))) ''/api/users'')
        late_world ''/api/users'' JUndefined
      = (Inr (JArr [JObj [(''id'', JNum 1)]]),
         RequestCache_delete
           (fst (snd (RequestCache_fetch users_200 (new_cache 60000) fresh_world ''/api/users''
                        JUndefined))) ''/api/users'',
         late_world)"
proof -
  let ?run = "RequestCache_fetch users_200 (new_cache 60000) fresh_world ''/api/users'' JUndefined"
  have run: "?run = (Inr (JArr [JObj [(''id'', JNum 1)]]),
                     \<lparr>cache = [''/api/users{}'' \<mapsto> \<lparr>data = JArr [JObj [(''id'', JNum 1)]], timestamp = 20\<rparr>],
                      ttl = 60000\<rparr>,
                     \<lparr>calls = [(''/api/users'', JObj [])], now = 20, sleeps = []\<rparr>)"
    by (simp add: RequestCache_fetch_def RequestCache_fetch_fresh_def default_options_def
          stringify_text_def new_cache_def fresh_world_def users_200_def fetch_js_def
          signal_of_def response_json_def json_body_def)
  have within: "now late_world - 20 < ttl (new_cache 60000)"
    by (simp add: late_world_def new_cache_def)
  note inst = delete_misses_entry [where url = "''/api/users''" and options = JUndefined
                 and c = "new_cache 60000" and net = users_200 and w = fresh_world]
  have stored: "cache (RequestCache_delete (fst (snd ?run)) ''/api/users'') ''/api/users{}''
       = Some \<lparr>data = JArr [JObj [(''id'', JNum 1)]], timestamp = 20\<rparr>"
    using inst run by (simp add: default_options_def stringify_text_def)
  have again: "RequestCache_fetch offline (RequestCache_delete (fst (snd ?run)) ''/api/users'')
                 late_world ''/api/users'' JUndefined
      = (Inr (JArr [JObj [(''id'', JNum 1)]]),
         RequestCache_delete (fst (snd ?run)) ''/api/users'', late_world)"
  proof -
    from inst have "\<forall>d. fst ?run = Inr d \<longrightarrow>
        (\<exists>e. cache (fst (snd ?run)) (''/api/users'' @ stringify_text (default_options JUndefined)) = Some e
            \<and> data e = d
            \<and> (\<forall>net' w'. now w' - timestamp e < ttl (new_cache 60000) \<longrightarrow>
                  RequestCache_fetch net' (RequestCache_delete (fst (snd ?run)) ''/api/users'')
                    w' ''/api/users'' JUndefined
                  = (Inr d, RequestCache_delete (fst (snd ?run)) ''/api/users'', w')))"
      by blast
    then obtain e where e: "cache (fst (snd ?run)) (''/api/users'' @ stringify_text (default_options JUndefined)) = Some e"
        and later: "\<forall>net' w'. now w' - timestamp e < ttl (new_cache 60000) \<longrightarrow>
                  RequestCache_fetch net' (RequestCache_delete (fst (snd ?run)) ''/api/users'')
                    w' ''/api/users'' JUndefined
                  = (Inr (JArr [JObj [(''id'', JNum 1)]]),
                     RequestCache_delete (fst (snd ?run)) ''/api/users'', w')"
      using run by auto
    have "timestamp e = 20"
      using e run by (auto simp: default_options_def stringify_text_def)
    then show ?thesis using later within by simp
  qed
  have empty: "cache (new_cache 60000) ''/api/users'' = None" by (simp add: new_cache_def)
  have same: "RequestCache_delete (fst (snd ?run)) ''/api/users'' = fst (snd ?run)"
    using inst empty by blast
  have first: "fst ?run = Inr (JArr [JObj [(''id'', JNum 1)]])" using run by simp
  show ?thesis using empty same first stored within again by blast
qed

section \<open>Properties of the sequential requests\<close>

lemma response_json_used:
  "fst (response_json (snd (response_json r))) = Inl (Err ''TypeError'' (consumed (body r)))"
  by (simp add: response_json_def)

text \<open>
  The \<open>try\<close> block of the template never completes: where both requests succeed, the
  second read of \<open>userResponse\<close> throws.
\<close>

lemma template_try_throws: "\<exists>e. fst (template_try net w userId) = Inl e"
proof -
  have "\<And>r. \<exists>e. fst (response_json (snd (response_json r))) = Inl e"
    using response_json_used by blast
  then show ?thesis
    unfolding template_try_def
    by (auto split: prod.splits sum.splits simp: Let_def)
       (metis fst_conv snd_conv sum.distinct(1) sum.exhaust)+
qed

lemma template_throws:
  "\<exists>e. fst (fetchUserPostComments_template net w userId) = Inl e"
  using template_try_throws [of net w userId]
  by (auto simp: fetchUserPostComments_template_def split: prod.splits sum.splits)

text \<open>\<open>await fetch(url)\<close>, with no init object and so no signal.\<close>

lemma fetch_js_plain:
  "fetch_js net w url JUndefined =
     (case net (length (calls w)) url JUndefined of
        (Answer st reason b, lat) \<Rightarrow>
          (Inr (Response st reason b False),
           w\<lparr>calls := calls w @ [(url, JUndefined)], now := now w + int lat\<rparr>)
      | (Failure e, lat) \<Rightarrow>
          (Inl e, w\<lparr>calls := calls w @ [(url, JUndefined)], now := now w + int lat\<rparr>))"
  by (simp add: fetch_js_def signal_of_def split: prod.splits reply.splits)

text \<open>
  Where the reference solution returns, the user request and the posts request were
  answered with a status in 200-299 and a JSON body, and the \<open>posts\<close> returned are the
  parsed body of the response to the posts request.
\<close>

lemma solution_try_returns:
  assumes "fst (solution_try net w userId) = Inr v"
  shows "\<exists>st reason ub lat user uid st2 reason2 pb lat2.
           net (length (calls w)) (users_url userId) JUndefined = (Answer st reason ub, lat)
         \<and> 200 \<le> st \<and> st \<le> 299 \<and> content ub = Inr user \<and> get_prop user ''id'' = Inr uid
         \<and> net (length (calls w) + 1) (posts_url uid) JUndefined = (Answer st2 reason2 pb, lat2)
         \<and> 200 \<le> st2 \<and> st2 \<le> 299
         \<and> content pb = Inr (get_own (own_props v) ''posts'')"
proof -
  obtain rep lat where r1: "net (length (calls w)) (users_url userId) JUndefined = (rep, lat)"
    by force
  let ?w1 = "w\<lparr>calls := calls w @ [(users_url userId, JUndefined)], now := now w + int lat\<rparr>"
  from assms r1 obtain st reason ub where rep: "rep = Answer st reason ub"
    by (cases rep) (auto simp: solution_try_def fetch_js_plain)
  have f1: "fetch_js net w (users_url userId) JUndefined = (Inr (Response st reason ub False), ?w1)"
    using r1 rep by (simp add: fetch_js_plain)
  have ok1: "200 \<le> st \<and> st \<le> 299"
    using assms f1 by (auto simp: solution_try_def ok_def split: if_splits)
  then have okr: "ok (Response st reason ub False)" by (simp add: ok_def)
  obtain user where user: "content ub = Inr user"
    using assms f1 okr
    by (cases "content ub") (auto simp: solution_try_def response_json_def)
  then have j1: "fst (response_json (Response st reason ub False)) = Inr user"
    by (simp add: response_json_def)
  obtain uid where uid: "get_prop user ''id'' = Inr uid"
    using assms f1 okr j1
    by (cases "get_prop user ''id''") (auto simp: solution_try_def)
  obtain rep2 lat2 where r2: "net (length (calls w) + 1) (posts_url uid) JUndefined = (rep2, lat2)"
    by force
  have len1: "length (calls ?w1) = length (calls w) + 1" by simp
  let ?w2 = "?w1\<lparr>calls := calls ?w1 @ [(posts_url uid, JUndefined)], now := now ?w1 + int lat2\<rparr>"
  from assms f1 okr j1 uid r2 obtain st2 reason2 pb where rep2: "rep2 = Answer st2 reason2 pb"
    by (cases rep2) (auto simp: solution_try_def fetch_js_plain)
  have f2: "fetch_js net ?w1 (posts_url uid) JUndefined = (Inr (Response st2 reason2 pb False), ?w2)"
    using r2 rep2 by (simp add: fetch_js_plain)
  have ok2: "200 \<le> st2 \<and> st2 \<le> 299"
    using assms f1 okr j1 uid f2 by (auto simp: solution_try_def ok_def split: if_splits)
  then have okr2: "ok (Response st2 reason2 pb False)" by (simp add: ok_def)
  obtain posts where posts: "content pb = Inr posts"
    using assms f1 okr j1 uid f2 okr2
    by (cases "content pb") (auto simp: solution_try_def response_json_def)
  then have j2: "fst (response_json (Response st2 reason2 pb False)) = Inr posts"
    by (simp add: response_json_def)
  have "get_own (own_props v) ''posts'' = posts"
    using assms f1 okr j1 uid f2 okr2 j2
    by (auto simp: solution_try_def fetch_comments_def
             split: sum.splits if_splits prod.splits)
  then show ?thesis using r1 rep ok1 user uid r2 rep2 ok2 posts by blast
qed

text \<open>
  There the template sends the same two requests and then reads \<open>userResponse\<close> again:
  the read rejects with the \<open>TypeError\<close> of a body already read.
\<close>

lemma template_try_second_read:
  assumes "net (length (calls w)) (users_url userId) JUndefined = (Answer st reason ub, lat)"
      and "200 \<le> st \<and> st \<le> 299" and "content ub = Inr user" and "get_prop user ''id'' = Inr uid"
      and "net (length (calls w) + 1) (posts_url uid) JUndefined = (Answer st2 reason2 pb, lat2)"
      and "200 \<le> st2 \<and> st2 \<le> 299"
  shows "fst (template_try net w userId) = Inl (Err ''TypeError'' (consumed ub))"
    and "calls (snd (template_try net w userId))
           = calls w @ [(users_url userId, JUndefined), (posts_url uid, JUndefined)]"
  using assms
  by (simp_all add: template_try_def fetch_js_plain ok_def response_json_def)

text \<open>
  C9. The template of Challenge 1.3 takes its \<open>posts\<close> from a second
  \<open>userResponse.json()\<close>, on the response whose body is already used, where the reference
  solution parses \<open>postsResponse\<close>. Wherever the reference solution returns, with the posts
  \<open>p\<close> that are the parsed body of the response to the posts request, the template run
  against the same server has sent the same two requests, for the user and for the posts,
  and then throws \<open>Sequential fetch failed:\<close> with the message of the \<open>TypeError\<close> that
  the second read of the user's response raises. For every input and every server it
  returns no \<open>posts\<close> at all, so what it returns never equals the posts that the reference
  solution returns.
\<close>

theorem template_posts_differ:
  "returned_posts (fst (fetchUserPostComments_template net w userId)) = None
   \<and> (\<forall>p. returned_posts (fst (fetchUserPostComments_solution net w userId)) = Some p \<longrightarrow>
          returned_posts (fst (fetchUserPostComments_template net w userId)) \<noteq> Some p
        \<and> (\<exists>st reason ub lat user uid st2 reason2 pb lat2.
               net (length (calls w)) (users_url userId) JUndefined = (Answer st reason ub, lat)
             \<and> content ub = Inr user \<and> get_prop user ''id'' = Inr uid
             \<and> net (length (calls w) + 1) (posts_url uid) JUndefined = (Answer st2 reason2 pb, lat2)
             \<and> content pb = Inr p
             \<and> calls (snd (fetchUserPostComments_template net w userId))
                 = calls w @ [(users_url userId, JUndefined), (posts_url uid, JUndefined)]
             \<and> fst (fetchUserPostComments_template net w userId)
                 = Inl (Err ''Error'' (''Sequential fetch failed: '' @ consumed ub))))"
proof -
  have never: "returned_posts (fst (fetchUserPostComments_template net w userId)) = None"
    using template_throws [of net w userId] by (auto simp: returned_posts_def)
  have where_solved: "\<exists>st reason ub lat user uid st2 reason2 pb lat2.
               net (length (calls w)) (users_url userId) JUndefined = (Answer st reason ub, lat)
             \<and> content ub = Inr user \<and> get_prop user ''id'' = Inr uid
             \<and> net (length (calls w) + 1) (posts_url uid) JUndefined = (Answer st2 reason2 pb, lat2)
             \<and> content pb = Inr p
             \<and> calls (snd (fetchUserPostComments_template net w userId))
                 = calls w @ [(users_url userId, JUndefined), (posts_url uid, JUndefined)]
             \<and> fst (fetchUserPostComments_template net w userId)
                 = Inl (Err ''Error'' (''Sequential fetch failed: '' @ consumed ub))"
    if solved: "returned_posts (fst (fetchUserPostComments_solution net w userId)) = Some p" for p
  proof -
    from solved obtain v where v: "fst (solution_try net w userId) = Inr v"
        and p: "get_own (own_props v) ''posts'' = p"
      by (auto simp: returned_posts_def fetchUserPostComments_solution_def
               split: prod.splits sum.splits)
    from solution_try_returns [OF v] p
    obtain st reason ub lat user uid st2 reason2 pb lat2 where
        r1: "net (length (calls w)) (users_url userId) JUndefined = (Answer st reason ub, lat)"
        and ok1: "200 \<le> st \<and> st \<le> 299"
        and user: "content ub = Inr user" and uid: "get_prop user ''id'' = Inr uid"
        and r2: "net (length (calls w) + 1) (posts_url uid) JUndefined = (Answer st2 reason2 pb, lat2)"
        and ok2: "200 \<le> st2 \<and> st2 \<le> 299"
        and posts: "content pb = Inr p"
      by blast
    note second = template_try_second_read [where net = net and w = w and userId = userId,
        OF r1 ok1 user uid r2 ok2]
    have "fst (fetchUserPostComments_template net w userId)
            = Inl (Err ''Error'' (''Sequential fetch failed: '' @ consumed ub))"
      using second(1)
      by (auto simp: fetchUserPostComments_template_def sequential_failed_def message_of_def
               split: prod.splits)
    moreover have "calls (snd (fetchUserPostComments_template net w userId))
                 = calls w @ [(users_url userId, JUndefined), (posts_url uid, JUndefined)]"
      using second
      by (auto simp: fetchUserPostComments_template_def split: prod.splits sum.splits)
    ultimately show ?thesis using r1 user uid r2 posts by blast
  qed
  show ?thesis using never where_solved by auto
qed

theorem template_posts_differ_witness:
  "returned_posts (fst (fetchUserPostComments_solution placeholder_api fresh_world (JNum 1)))
     = Some (JArr [JObj [(''id'', JNum 10), (''userId'', JNum 1)]])
   \<and> returned_posts (fst (fetchUserPostComments_template placeholder_api fresh_world (JNum 1)))
     \<noteq> Some (JArr [JObj [(''id'', JNum 10), (''userId'', JNum 1)]])
   \<and> calls (snd (fetchUserPostComments_template placeholder_api fresh_world (JNum 1)))
     = [(''https://jsonplaceholder.typicode.com/users/1'', JUndefined),
        (''https://jsonplaceholder.typicode.com/posts?userId=1'', JUndefined)]
   \<and> fst (fetchUserPostComments_template placeholder_api fresh_world (JNum 1))
     = Inl (Err ''Error'' ''Sequential fetch failed: Body is unusable: Body has already been read'')"
proof -
  have sol: "returned_posts (fst (fetchUserPostComments_solution placeholder_api fresh_world (JNum 1)))
     = Some (JArr [JObj [(''id'', JNum 10), (''userId'', JNum 1)]])"
    by code_simp
  have tem: "fst (fetchUserPostComments_template placeholder_api fresh_world (JNum 1))
     = Inl (Err ''Error'' ''Sequential fetch failed: Body is unusable: Body has already been read'')"
    by code_simp
  have sent: "calls (snd (fetchUserPostComments_template placeholder_api fresh_world (JNum 1)))
     = [(''https://jsonplaceholder.typicode.com/users/1'', JUndefined),
        (''https://jsonplaceholder.typicode.com/posts?userId=1'', JUndefined)]"
    by code_simp
  show ?thesis
    using sol tem sent template_posts_differ [of placeholder_api fresh_world "JNum 1"] by blast
qed

section \<open>Properties of the timeout wrappers\<close>

lemma set_own_twice: "set_own (set_own ps k v) k v' = set_own ps k v'"
  by (induction ps) auto

lemma get_own_set_own: "get_own (set_own ps k v) k = v"
  by (induction ps) auto

lemma signal_of_spread: "signal_of (spread_with obj ''signal'' (JSignal t)) = t"
  by (simp add: signal_of_def spread_with_def get_own_set_own)

lemma spread_over_signal:
  "spread_with (default_options (spread_with obj ''signal'' s)) ''signal'' s'
     = spread_with obj ''signal'' s'"
  by (simp add: spread_with_def default_options_def set_own_twice)

text \<open>
  What \<open>safeFetch\<close> awaits: the call of \<open>fetch\<close> with the signal of its own controller,
  which the timer aborts five seconds after the call.
\<close>

lemma safeFetch_fetch:
  assumes "net (length (calls w)) url
             (spread_with (default_options options) ''signal'' (JSignal (Some (now w + 5000))))
           = (rep, lat)"
  shows "fst (fetch_js net w url
               (spread_with (default_options options) ''signal'' (JSignal (Some (now w + 5000)))))
         = (if 5000 \<le> int lat then Inl abort_error
            else case rep of Answer st txt b \<Rightarrow> Inr (Response st txt b False)
                           | Failure e \<Rightarrow> Inl e)"
  using assms by (simp add: fetch_js_def signal_of_spread)

lemma safeFetch_timeout:
  assumes "net (length (calls w)) url
             (spread_with (default_options options) ''signal'' (JSignal (Some (now w + 5000))))
           = (rep, lat)"
      and "5000 \<le> int lat"
  shows "fst (safeFetch net w url options) = Inl (Err ''Error'' ''Request timeout after 5 seconds'')"
  using safeFetch_fetch [where net = net and w = w, OF assms(1)] assms(2)
  by (auto simp: safeFetch_def Let_def name_of_def abort_error_def split: prod.splits sum.splits)

lemma safeFetch_status:
  assumes "net (length (calls w)) url
             (spread_with (default_options options) ''signal'' (JSignal (Some (now w + 5000))))
           = (Answer st txt b, lat)"
      and "int lat < 5000" and "\<not> (200 \<le> st \<and> st \<le> 299)"
  shows "fst (safeFetch net w url options)
           = Inl (Err ''Error'' (''HTTP Error '' @ string_of_nat st @ '': '' @ txt))"
  using safeFetch_fetch [where net = net and w = w, OF assms(1)] assms(2,3)
  by (auto simp: safeFetch_def Let_def name_of_def ok_def split: prod.splits sum.splits)

lemma safeFetch_network:
  assumes "net (length (calls w)) url
             (spread_with (default_options options) ''signal'' (JSignal (Some (now w + 5000))))
           = (Failure (Err ''TypeError'' m), lat)"
      and "int lat < 5000"
  shows "fst (safeFetch net w url options) = Inl (Err ''TypeError'' m)"
  using safeFetch_fetch [where net = net and w = w, OF assms(1)] assms(2)
  by (auto simp: safeFetch_def Let_def name_of_def split: prod.splits sum.splits)

lemma safeFetch_ignores_signal:
  "safeFetch net w url (spread_with options ''signal'' s)
     = safeFetch net w url (spread_with options ''signal'' s')"
  by (simp add: safeFetch_def spread_over_signal)

lemma fetchWithTimeout_timeout:
  assumes "net (length (calls w)) url (JObj [(''signal'', JSignal (Some (now w + max 0 timeout)))])
           = (rep, lat)"
      and "max 0 timeout \<le> int lat"
  shows "fst (fetchWithTimeout net w url timeout) = Inl abort_error"
  using assms
  by (auto simp: fetchWithTimeout_def Let_def fetch_js_def signal_of_def name_of_def
        abort_error_def split: prod.splits sum.splits)

text \<open>
  C8, as stated, fails. In the tutorial script a timeout surfaces as the \<open>AbortError\<close> of
  the platform, the very error with which a request cancelled by its caller rejects (here
  \<open>search\<close> of the cheat sheet, superseded after 10 milliseconds); and \<open>safeFetch\<close>
  replaces the signal of its caller by its own, so a caller that aborts after 10
  milliseconds gets the same run as one that never aborts: the timeout error after five
  seconds.
\<close>

theorem failure_kinds_counterexample:
  "fst (fetchWithTimeout stalled fresh_world ''/api/users'' 5000) = Inl abort_error
   \<and> fst (search stalled fresh_world (JStr ''a'') (Some 10)) = Inl abort_error
   \<and> safeFetch stalled fresh_world ''/api/users'' (JObj [(''signal'', JSignal (Some 10))])
     = safeFetch stalled fresh_world ''/api/users'' (JObj [(''signal'', JSignal None)])
   \<and> fst (safeFetch stalled fresh_world ''/api/users'' (JObj [(''signal'', JSignal (Some 10))]))
     = Inl (Err ''Error'' ''Request timeout after 5 seconds'')"
proof -
  have a: "fst (fetchWithTimeout stalled fresh_world ''/api/users'' 5000) = Inl abort_error"
    by (rule fetchWithTimeout_timeout [where net = stalled and w = fresh_world
               and rep = "Answer 200 ''OK'' (json_body JNull)" and lat = 60000])
       (simp_all add: stalled_def)
  have b: "fst (search stalled fresh_world (JStr ''a'') (Some 10)) = Inl abort_error"
    by (simp add: search_def fetch_js_def stalled_def signal_of_def fresh_world_def)
  have c: "safeFetch stalled fresh_world ''/api/users'' (JObj [(''signal'', JSignal (Some 10))])
     = safeFetch stalled fresh_world ''/api/users'' (JObj [(''signal'', JSignal None)])"
    using safeFetch_ignores_signal [of stalled fresh_world "''/api/users''" "JObj []"
            "JSignal (Some 10)" "JSignal None"]
    by (simp add: spread_with_def)
  have d: "fst (safeFetch stalled fresh_world ''/api/users'' (JObj [(''signal'', JSignal (Some 10))]))
     = Inl (Err ''Error'' ''Request timeout after 5 seconds'')"
    by (rule safeFetch_timeout [where net = stalled and w = fresh_world
               and rep = "Answer 200 ''OK'' (json_body JNull)" and lat = 60000])
       (simp_all add: stalled_def)
  show ?thesis using a b c d by blast
qed

text \<open>
  C8, amended. \<open>safeFetch\<close> surfaces three kinds of failure that a caller can tell apart:
  a timeout (the timer fired before the answer) as the error
  \<open>Request timeout after 5 seconds\<close>, a failure of the transport as the rejection of
  \<open>fetch\<close> itself, unchanged (a \<open>TypeError\<close>), and a status outside 200-299 as the error
  \<open>HTTP Error <status>: <statusText>\<close>. It has no cancellation by the caller: a signal in
  the options is replaced by the signal of the timeout controller, so the run does not
  depend on it. \<open>fetchWithTimeout\<close> of the tutorial script rethrows the \<open>AbortError\<close> of a
  timeout unchanged.
\<close>

theorem failure_kinds:
  assumes "net (length (calls w)) url
             (spread_with (default_options options) ''signal'' (JSignal (Some (now w + 5000))))
           = (rep, lat)"
      and "net (length (calls w)) url (JObj [(''signal'', JSignal (Some (now w + max 0 timeout)))])
           = (rep', lat')"
  shows "(5000 \<le> int lat \<longrightarrow>
            fst (safeFetch net w url options) = Inl (Err ''Error'' ''Request timeout after 5 seconds''))
       \<and> (int lat < 5000 \<longrightarrow>
            (\<forall>st txt b. rep = Answer st txt b \<and> \<not> (200 \<le> st \<and> st \<le> 299) \<longrightarrow>
               fst (safeFetch net w url options)
                 = Inl (Err ''Error'' (''HTTP Error '' @ string_of_nat st @ '': '' @ txt)))
          \<and> (\<forall>m. rep = Failure (Err ''TypeError'' m) \<longrightarrow>
               fst (safeFetch net w url options) = Inl (Err ''TypeError'' m)))
       \<and> (\<forall>x m. Err ''Error'' ''Request timeout after 5 seconds'' \<noteq> Err ''Error'' (''HTTP Error '' @ x)
              \<and> Err ''Error'' ''Request timeout after 5 seconds'' \<noteq> Err ''TypeError'' m
              \<and> Err ''Error'' (''HTTP Error '' @ x) \<noteq> Err ''TypeError'' m)
       \<and> (\<forall>s s'. safeFetch net w url (spread_with options ''signal'' s)
                   = safeFetch net w url (spread_with options ''signal'' s'))
       \<and> (max 0 timeout \<le> int lat' \<longrightarrow> fst (fetchWithTimeout net w url timeout) = Inl abort_error)"
proof -
  have a: "5000 \<le> int lat \<longrightarrow>
            fst (safeFetch net w url options) = Inl (Err ''Error'' ''Request timeout after 5 seconds'')"
    using safeFetch_timeout [where net = net and w = w, OF assms(1)] by blast
  have b: "int lat < 5000 \<longrightarrow>
            (\<forall>st txt b. rep = Answer st txt b \<and> \<not> (200 \<le> st \<and> st \<le> 299) \<longrightarrow>
               fst (safeFetch net w url options)
                 = Inl (Err ''Error'' (''HTTP Error '' @ string_of_nat st @ '': '' @ txt)))"
    using safeFetch_status [where net = net and w = w and url = url and options = options
            and lat = lat] assms(1)
    by blast
  have c: "int lat < 5000 \<longrightarrow>
            (\<forall>m. rep = Failure (Err ''TypeError'' m) \<longrightarrow>
               fst (safeFetch net w url options) = Inl (Err ''TypeError'' m))"
    using safeFetch_network [where net = net and w = w and url = url and options = options
            and lat = lat] assms(1)
    by blast
  have d: "\<forall>x m. Err ''Error'' ''Request timeout after 5 seconds'' \<noteq> Err ''Error'' (''HTTP Error '' @ x)
              \<and> Err ''Error'' ''Request timeout after 5 seconds'' \<noteq> Err ''TypeError'' m
              \<and> Err ''Error'' (''HTTP Error '' @ x) \<noteq> Err ''TypeError'' m"
    by simp
  have e: "\<forall>s s'. safeFetch net w url (spread_with options ''signal'' s)
                   = safeFetch net w url (spread_with options ''signal'' s')"
    using safeFetch_ignores_signal by blast
  have f: "max 0 timeout \<le> int lat' \<longrightarrow> fst (fetchWithTimeout net w url timeout) = Inl abort_error"
    using fetchWithTimeout_timeout [where net = net and w = w, OF assms(2)] by blast
  show ?thesis using a b c d e f by blast
qed

theorem failure_kinds_witness:
  "stalled (length (calls fresh_world)) ''/api/users''
     (spread_with (default_options JUndefined) ''signal'' (JSignal (Some (now fresh_world + 5000))))
     = (Answer 200 ''OK'' (json_body JNull), 60000)
   \<and> stalled (length (calls fresh_world)) ''/api/users''
       (JObj [(''signal'', JSignal (Some (now fresh_world + max 0 5000)))])
     = (Answer 200 ''OK'' (json_body JNull), 60000)
   \<and> (5000::int) \<le> int 60000 \<and> int 20 < (5000::int)
   \<and> fst (safeFetch stalled fresh_world ''/api/users'' JUndefined)
     = Inl (Err ''Error'' ''Request timeout after 5 seconds'')
   \<and> fst (fetchWithTimeout stalled fresh_world ''/api/users'' 5000) = Inl abort_error
   \<and> fst (safeFetch always_404 fresh_world ''/api/users'' JUndefined)
     = Inl (Err ''Error'' ''HTTP Error 404: Not Found'')
   \<and> fst (safeFetch offline fresh_world ''/api/users'' JUndefined)
     = Inl (Err ''TypeError'' ''Failed to fetch'')"
proof -
  have s1: "stalled (length (calls fresh_world)) ''/api/users''
     (spread_with (default_options JUndefined) ''signal'' (JSignal (Some (now fresh_world + 5000))))
     = (Answer 200 ''OK'' (json_body JNull), 60000)"
    by (simp add: stalled_def)
  have s2: "stalled (length (calls fresh_world)) ''/api/users''
       (JObj [(''signal'', JSignal (Some (now fresh_world + max 0 5000)))])
     = (Answer 200 ''OK'' (json_body JNull), 60000)"
    by (simp add: stalled_def)
  have n1: "always_404 (length (calls fresh_world)) ''/api/users''
     (spread_with (default_options JUndefined) ''signal'' (JSignal (Some (now fresh_world + 5000))))
     = (Answer 404 ''Not Found'' empty_body, 20)"
    by (simp add: always_404_def)
  have n2: "always_404 (length (calls fresh_world)) ''/api/users''
       (JObj [(''signal'', JSignal (Some (now fresh_world + max 0 5000)))])
     = (Answer 404 ''Not Found'' empty_body, 20)"
    by (simp add: always_404_def)
  have o1: "offline (length (calls fresh_world)) ''/api/users''
     (spread_with (default_options JUndefined) ''signal'' (JSignal (Some (now fresh_world + 5000))))
     = (Failure (Err ''TypeError'' ''Failed to fetch''), 20)"
    by (simp add: offline_def)
  have o2: "offline (length (calls fresh_world)) ''/api/users''
       (JObj [(''signal'', JSignal (Some (now fresh_world + max 0 5000)))])
     = (Failure (Err ''TypeError'' ''Failed to fetch''), 20)"
    by (simp add: offline_def)
  have late: "(5000::int) \<le> int 60000" and early: "int 20 < (5000::int)" by simp_all
  note slow = failure_kinds [where net = stalled and w = fresh_world, OF s1 s2]
  note missing = failure_kinds [where net = always_404 and w = fresh_world, OF n1 n2]
  note down = failure_kinds [where net = offline and w = fresh_world, OF o1 o2]
  have a: "fst (safeFetch stalled fresh_world ''/api/users'' JUndefined)
     = Inl (Err ''Error'' ''Request timeout after 5 seconds'')"
    using slow late by blast
  have b: "fst (fetchWithTimeout stalled fresh_world ''/api/users'' 5000) = Inl abort_error"
    using slow late by simp
  have "fst (safeFetch always_404 fresh_world ''/api/users'' JUndefined)
     = Inl (Err ''Error'' (''HTTP Error '' @ string_of_nat 404 @ '': '' @ ''Not Found''))"
    using missing early by simp
  then have c: "fst (safeFetch always_404 fresh_world ''/api/users'' JUndefined)
     = Inl (Err ''Error'' ''HTTP Error 404: Not Found'')"
    by (simp add: string_of_nat_404)
  have d: "fst (safeFetch offline fresh_world ''/api/users'' JUndefined)
     = Inl (Err ''TypeError'' ''Failed to fetch'')"
    using down early by blast
  show ?thesis using s1 s2 late early a b c d by blast
qed

section \<open>Properties of the deduplicator\<close>

text \<open>The template of Challenge 5.2 calls nothing and resolves to \<open>undefined\<close>.\<close>

lemma dedupedFetch_template:
  "fst (dedupedFetch net w url options) = Inr JUndefined
   \<and> calls (snd (dedupedFetch net w url options)) = calls w"
  by (simp add: dedupedFetch_def)

lemma dedup_run_Cons: "dedup_run d (ev # evs) = dedup_run (dedup_step d ev) evs"
  by (simp add: dedup_run_def)

lemma joined_run:
  assumes "in_flight_for fp evs" and "pending d fp = Some ws"
  shows "pending (dedup_run d evs) fp = Some (ws @ joiners (callers d) fp evs)
       \<and> count_list (started (dedup_run d evs)) fp = count_list (started d) fp"
  using assms
proof (induction evs arbitrary: d ws)
  case Nil
  then show ?case by (simp add: dedup_run_def)
next
  case (Cons ev evs)
  show ?case
  proof (cases ev)
    case (JoinOrStart fp')
    show ?thesis
    proof (cases "fp' = fp")
      case True
      then have "pending (dedup_step d ev) fp = Some (ws @ [callers d])"
          "started (dedup_step d ev) = started d" "callers (dedup_step d ev) = callers d + 1"
        using JoinOrStart Cons.prems(2) by (simp_all add: joinOrStart_def)
      then show ?thesis
        using Cons.IH [of "dedup_step d ev" "ws @ [callers d]"] Cons.prems(1) JoinOrStart True
        by (simp add: dedup_run_Cons)
    next
      case False
      then have "pending (dedup_step d ev) fp = Some ws"
          "count_list (started (dedup_step d ev)) fp = count_list (started d) fp"
          "callers (dedup_step d ev) = callers d + 1"
        using JoinOrStart Cons.prems(2) by (auto simp: joinOrStart_def split: option.splits)
      then show ?thesis
        using Cons.IH [of "dedup_step d ev" ws] Cons.prems(1) JoinOrStart False
        by (simp add: dedup_run_Cons)
    qed
  next
    case (Settles fp' r)
    then have ne: "fp' \<noteq> fp" using Cons.prems(1) by simp
    then have "pending (dedup_step d ev) fp = Some ws"
        "started (dedup_step d ev) = started d" "callers (dedup_step d ev) = callers d"
      using Settles Cons.prems(2) by (auto simp: settled_def split: option.splits)
    then show ?thesis
      using Cons.IH [of "dedup_step d ev" ws] Cons.prems(1) Settles ne
      by (simp add: dedup_run_Cons)
  qed
qed

lemma started_run:
  assumes "in_flight_for fp evs" and "pending d fp = None" and "joiners (callers d) fp evs \<noteq> []"
  shows "pending (dedup_run d evs) fp = Some (joiners (callers d) fp evs)
       \<and> count_list (started (dedup_run d evs)) fp = count_list (started d) fp + 1"
  using assms
proof (induction evs arbitrary: d)
  case Nil
  then show ?case by simp
next
  case (Cons ev evs)
  show ?case
  proof (cases ev)
    case (JoinOrStart fp')
    show ?thesis
    proof (cases "fp' = fp")
      case True
      then have first: "pending (dedup_step d ev) fp = Some [callers d]"
          "started (dedup_step d ev) = started d @ [fp]" "callers (dedup_step d ev) = callers d + 1"
        using JoinOrStart Cons.prems(2) by (simp_all add: joinOrStart_def)
      show ?thesis
        using joined_run [of fp evs "dedup_step d ev" "[callers d]"] first Cons.prems(1)
              JoinOrStart True
        by (simp add: dedup_run_Cons)
    next
      case False
      then have "pending (dedup_step d ev) fp = None"
          "count_list (started (dedup_step d ev)) fp = count_list (started d) fp"
          "callers (dedup_step d ev) = callers d + 1"
        using JoinOrStart Cons.prems(2) by (auto simp: joinOrStart_def split: option.splits)
      then show ?thesis
        using Cons.IH [of "dedup_step d ev"] Cons.prems(1,3) JoinOrStart False
        by (simp add: dedup_run_Cons)
    qed
  next
    case (Settles fp' r)
    then have ne: "fp' \<noteq> fp" using Cons.prems(1) by simp
    then have "pending (dedup_step d ev) fp = None"
        "started (dedup_step d ev) = started d" "callers (dedup_step d ev) = callers d"
      using Settles Cons.prems(2) by (auto simp: settled_def split: option.splits)
    then show ?thesis
      using Cons.IH [of "dedup_step d ev"] Cons.prems(1,3) Settles ne
      by (simp add: dedup_run_Cons)
  qed
qed


lemma joiners_length:
  "length (joiners c fp evs) = count_list evs (JoinOrStart fp)"
  by (induction c fp evs rule: joiners.induct) simp_all

lemma joiners_from:
  "\<forall>j \<in> set (joiners c fp evs). c \<le> j"
  by (induction c fp evs rule: joiners.induct) (auto intro: Suc_leD)

lemma joiners_distinct: "distinct (joiners c fp evs)"
proof (induction c fp evs rule: joiners.induct)
  case (2 c fp fp' evs)
  then show ?case using joiners_from [of "c + 1" fp evs] by auto
qed simp_all

text \<open>
  C1. Of the calls of \<open>joinOrStart\<close> with one fingerprint (the same method, URL and body)
  that are issued while no operation for it has settled, the first finds nothing pending
  and starts the operation, and the others join it: the transport is invoked exactly once
  for the fingerprint, whatever happens to other fingerprints meanwhile. When the operation
  settles, with a value or with an error, every one of those callers receives that outcome,
  nothing more is sent, and the pending entry is removed: the next call with the
  fingerprint invokes the transport again and starts a new pending operation.
\<close>

theorem dedup_shared:
  assumes "pending d (fingerprint method target payload) = None"
      and "in_flight_for (fingerprint method target payload) evs"
      and "joiners (callers d) (fingerprint method target payload) evs \<noteq> []"
  shows "count_list (started (dedup_run d evs)) (fingerprint method target payload)
           = count_list (started d) (fingerprint method target payload) + 1
       \<and> pending (dedup_run d evs) (fingerprint method target payload)
           = Some (joiners (callers d) (fingerprint method target payload) evs)
       \<and> length (joiners (callers d) (fingerprint method target payload) evs)
           = count_list evs (JoinOrStart (fingerprint method target payload))
       \<and> distinct (joiners (callers d) (fingerprint method target payload) evs)
       \<and> (\<forall>r. (\<forall>c \<in> set (joiners (callers d) (fingerprint method target payload) evs).
                   received (dedup_step (dedup_run d evs) (Settles (fingerprint method target payload) r)) c
                     = Some r)
              \<and> pending (dedup_step (dedup_run d evs) (Settles (fingerprint method target payload) r))
                    (fingerprint method target payload) = None
              \<and> started (dedup_step (dedup_run d evs) (Settles (fingerprint method target payload) r))
                  = started (dedup_run d evs)
              \<and> started (dedup_run d (evs @ [Settles (fingerprint method target payload) r,
                                            JoinOrStart (fingerprint method target payload)]))
                  = started (dedup_run d evs) @ [fingerprint method target payload]
              \<and> pending (dedup_run d (evs @ [Settles (fingerprint method target payload) r,
                                            JoinOrStart (fingerprint method target payload)]))
                    (fingerprint method target payload)
                  = Some [callers (dedup_run d evs)])"
proof -
  let ?fp = "fingerprint method target payload"
  let ?d1 = "dedup_run d evs"
  note run = started_run [OF assms(2,1,3)]
  then have p: "pending ?d1 ?fp = Some (joiners (callers d) ?fp evs)" by blast
  have after: "(\<forall>c \<in> set (joiners (callers d) ?fp evs).
                   received (dedup_step ?d1 (Settles ?fp r)) c = Some r)
              \<and> pending (dedup_step ?d1 (Settles ?fp r)) ?fp = None
              \<and> started (dedup_step ?d1 (Settles ?fp r)) = started ?d1
              \<and> started (dedup_run d (evs @ [Settles ?fp r, JoinOrStart ?fp])) = started ?d1 @ [?fp]
              \<and> pending (dedup_run d (evs @ [Settles ?fp r, JoinOrStart ?fp])) ?fp
                  = Some [callers ?d1]" for r
    using p by (simp add: dedup_run_def settled_def joinOrStart_def)
  show ?thesis
    using run joiners_length [of "callers d" ?fp evs] joiners_distinct [of "callers d" ?fp evs] after
    by blast
qed

theorem dedup_shared_witness:
  "pending new_deduplicator (fingerprint ''GET'' ''/api/users'' []) = None
   \<and> in_flight_for (fingerprint ''GET'' ''/api/users'' [])
        [JoinOrStart users_fp, JoinOrStart users_fp, JoinOrStart posts_fp, JoinOrStart users_fp,
         Settles posts_fp (Inl (Err ''TypeError'' ''Failed to fetch''))]
   \<and> joiners (callers new_deduplicator) (fingerprint ''GET'' ''/api/users'' [])
        [JoinOrStart users_fp, JoinOrStart users_fp, JoinOrStart posts_fp, JoinOrStart users_fp,
         Settles posts_fp (Inl (Err ''TypeError'' ''Failed to fetch''))] = [0, 1, 3]
   \<and> count_list (started (dedup_run new_deduplicator
        [JoinOrStart users_fp, JoinOrStart users_fp, JoinOrStart posts_fp, JoinOrStart users_fp,
         Settles posts_fp (Inl (Err ''TypeError'' ''Failed to fetch''))]))
        (fingerprint ''GET'' ''/api/users'' []) = 1
   \<and> map (received (dedup_run new_deduplicator
        [JoinOrStart users_fp, JoinOrStart users_fp, JoinOrStart posts_fp, JoinOrStart users_fp,
         Settles posts_fp (Inl (Err ''TypeError'' ''Failed to fetch'')),
         Settles users_fp users_list])) [0, 1, 3]
       = [Some users_list, Some users_list, Some users_list]
   \<and> pending (dedup_run new_deduplicator
        [JoinOrStart users_fp, JoinOrStart users_fp, JoinOrStart posts_fp, JoinOrStart users_fp,
         Settles posts_fp (Inl (Err ''TypeError'' ''Failed to fetch'')),
         Settles users_fp users_list])
        (fingerprint ''GET'' ''/api/users'' []) = None
   \<and> started (dedup_run new_deduplicator
        [JoinOrStart users_fp, JoinOrStart users_fp, JoinOrStart posts_fp, JoinOrStart users_fp,
         Settles posts_fp (Inl (Err ''TypeError'' ''Failed to fetch'')),
         Settles users_fp users_list, JoinOrStart users_fp])
       = [users_fp, posts_fp, users_fp]"
proof -
  let ?evs = "[JoinOrStart users_fp, JoinOrStart users_fp, JoinOrStart posts_fp, JoinOrStart users_fp,
               Settles posts_fp (Inl (Err ''TypeError'' ''Failed to fetch''))]"
  have h1: "pending new_deduplicator (fingerprint ''GET'' ''/api/users'' []) = None"
    by (simp add: new_deduplicator_def)
  have h2: "in_flight_for (fingerprint ''GET'' ''/api/users'' []) ?evs"
    by (simp add: users_fp_def posts_fp_def fingerprint_def)
  have js: "joiners (callers new_deduplicator) (fingerprint ''GET'' ''/api/users'' []) ?evs = [0, 1, 3]"
    by (simp add: users_fp_def posts_fp_def fingerprint_def new_deduplicator_def)
  then have h3: "joiners (callers new_deduplicator) (fingerprint ''GET'' ''/api/users'' []) ?evs \<noteq> []"
    by simp
  note inst = dedup_shared [OF h1 h2 h3]
  have once: "count_list (started (dedup_run new_deduplicator ?evs)) (fingerprint ''GET'' ''/api/users'' [])
                = 1"
    using inst by (simp add: new_deduplicator_def)
  have step_eq: "dedup_step (dedup_run new_deduplicator ?evs)
                   (Settles (fingerprint ''GET'' ''/api/users'' []) users_list)
                 = dedup_run new_deduplicator (?evs @ [Settles users_fp users_list])"
    by (simp add: dedup_run_def users_fp_def)
  have shared: "\<forall>c \<in> set [0, 1, 3::nat].
        received (dedup_run new_deduplicator (?evs @ [Settles users_fp users_list])) c = Some users_list"
    using inst unfolding js step_eq [symmetric] by blast
  have gone: "pending (dedup_run new_deduplicator (?evs @ [Settles users_fp users_list]))
                (fingerprint ''GET'' ''/api/users'' []) = None"
    using inst unfolding step_eq [symmetric] by blast
  have before: "started (dedup_run new_deduplicator ?evs) = [users_fp, posts_fp]"
    by (simp add: dedup_run_def joinOrStart_def settled_def new_deduplicator_def users_fp_def
          posts_fp_def fingerprint_def)
  have "started (dedup_run new_deduplicator
          (?evs @ [Settles (fingerprint ''GET'' ''/api/users'' []) users_list,
                   JoinOrStart (fingerprint ''GET'' ''/api/users'' [])]))
          = started (dedup_run new_deduplicator ?evs) @ [fingerprint ''GET'' ''/api/users'' []]"
    using inst by blast
  then have again: "started (dedup_run new_deduplicator
          (?evs @ [Settles users_fp users_list, JoinOrStart users_fp]))
          = [users_fp, posts_fp, users_fp]"
    using before by (simp add: users_fp_def)
  show ?thesis using h1 h2 js once shared gone again by simp
qed

section \<open>Properties of the authenticated API service\<close>

lemma set_task_fields [simp]:
  "baseURL (set_task s i st) = baseURL s"
  "token (set_task s i st) = token s"
  "refreshPromise (set_task s i st) = refreshPromise s"
  "auth_token (set_task s i st) = auth_token s"
  "sent (set_task s i st) = sent s"
  "refreshes (set_task s i st) = refreshes s"
  "length (tasks (set_task s i st)) = length (tasks s)"
  by (simp_all add: set_task_def)

lemma set_task_other [simp]: "j \<noteq> i \<Longrightarrow> tasks (set_task s i st) ! j = tasks s ! j"
  by (simp add: set_task_def)

lemma set_task_same [simp]:
  "i < length (tasks s) \<Longrightarrow> tasks (set_task s i st) ! i = (tasks s ! i)\<lparr>task_state := st\<rparr>"
  by (simp add: set_task_def)

lemma request_init_readable:
  "readable options \<Longrightarrow> \<exists>init. request_init tok options = Inr init"
  by (cases options) (simp_all add: readable_def request_init_def Let_def)

lemma request_init_authorization:
  "request_init tok options = Inr init \<Longrightarrow> truthy tok \<Longrightarrow>
   authorization_of init = JStr (''Bearer '' @ to_string tok)"
  by (auto simp: request_init_def Let_def authorization_of_def spread_with_def get_own_set_own
           split: sum.splits)

lemma request_sync_fields [simp]:
  "baseURL (request_sync s i) = baseURL s"
  "refreshPromise (request_sync s i) = refreshPromise s"
  "auth_token (request_sync s i) = auth_token s"
  "refreshes (request_sync s i) = refreshes s"
  "length (tasks (request_sync s i)) = length (tasks s)"
  by (simp_all add: request_sync_def Let_def split: sum.splits)

lemma request_sync_token:
  "token (request_sync s i) = (if truthy (token s) then token s else auth_token s)"
  by (simp add: request_sync_def Let_def split: sum.splits)

lemma request_sync_other [simp]: "j \<noteq> i \<Longrightarrow> tasks (request_sync s i) ! j = tasks s ! j"
  by (simp add: request_sync_def Let_def split: sum.splits)

lemma request_sync_same:
  "i < length (tasks s) \<Longrightarrow>
   task_endpoint (tasks (request_sync s i) ! i) = task_endpoint (tasks s ! i)
   \<and> task_options (tasks (request_sync s i) ! i) = task_options (tasks s ! i)"
  by (simp add: request_sync_def Let_def split: sum.splits)

text \<open>\<open>_request\<close> of a task with readable options, while the service holds a token.\<close>

lemma request_sync_sends:
  assumes "i < length (tasks s)" and "readable (task_options (tasks s ! i))" and "truthy (token s)"
  shows "tasks (request_sync s i) ! i = (tasks s ! i)\<lparr>task_state := AwaitingResponse\<rparr>"
    and "sent (request_sync s i) = sent s @ [request_of s (token s) i]"
    and "token (request_sync s i) = token s"
  using assms request_init_readable [OF assms(2), of "token s"]
  by (auto simp: request_sync_def Let_def request_of_def split: sum.splits)
lemma resume_fields [simp]:
  "baseURL (resume r i s) = baseURL s"
  "refreshPromise (resume r i s) = refreshPromise s"
  "auth_token (resume r i s) = auth_token s"
  "refreshes (resume r i s) = refreshes s"
  "length (tasks (resume r i s)) = length (tasks s)"
  by (simp_all add: resume_def split: sum.splits)

lemma fold_resume_fields [simp]:
  "baseURL (fold (resume r) js s) = baseURL s"
  "refreshPromise (fold (resume r) js s) = refreshPromise s"
  "auth_token (fold (resume r) js s) = auth_token s"
  "refreshes (fold (resume r) js s) = refreshes s"
  "length (tasks (fold (resume r) js s)) = length (tasks s)"
  by (induction js arbitrary: s) simp_all

text \<open>What an operation does to the tasks: the options of a task never change.\<close>

lemma set_task_options [simp]:
  "task_options (tasks (set_task s i st) ! j) = task_options (tasks s ! j)"
  by (cases "j = i"; cases "i < length (tasks s)") (simp_all add: set_task_def list_update_beyond)

lemma request_sync_options [simp]:
  "task_options (tasks (request_sync s i) ! j) = task_options (tasks s ! j)"
  by (simp add: request_sync_def Let_def split: sum.splits)

lemma resume_options [simp]:
  "task_options (tasks (resume r i s) ! j) = task_options (tasks s ! j)"
  by (simp add: resume_def split: sum.splits)

lemma fold_resume_options [simp]:
  "task_options (tasks (fold (resume r) js s) ! j) = task_options (tasks s ! j)"
  by (induction js arbitrary: s) simp_all

lemma request_init_unreadable:
  "request_init tok options = Inr init \<Longrightarrow> readable options"
  by (cases options) (simp_all add: readable_def request_init_def Let_def)

lemma request_sync_state:
  "i < length (tasks s) \<Longrightarrow>
   task_state (tasks (request_sync s i) ! i) = AwaitingResponse \<and> readable (task_options (tasks s ! i))
   \<or> (\<exists>e. task_state (tasks (request_sync s i) ! i) = Settled (Inl e))"
  by (auto simp: request_sync_def Let_def split: sum.splits dest: request_init_unreadable)

lemma waiting_readable_set_task:
  assumes "waiting_readable s"
      and "i < length (tasks s) \<Longrightarrow> (\<exists>r. st = Settled r) \<or> readable (task_options (tasks s ! i))"
  shows "waiting_readable (set_task s i st)"
  unfolding waiting_readable_def
proof (intro conjI allI impI ballI)
  fix j assume j: "j < length (tasks (set_task s i st))"
     and ns: "\<forall>r. task_state (tasks (set_task s i st) ! j) \<noteq> Settled r"
  show "readable (task_options (tasks (set_task s i st) ! j))"
  proof (cases "j = i")
    case True
    then show ?thesis using assms(2) j ns by auto
  next
    case False
    then show ?thesis using assms(1) j ns by (simp add: waiting_readable_def)
  qed
next
  fix p j assume "p < length (refreshes (set_task s i st))"
     and "j \<in> set (waiters (refreshes (set_task s i st) ! p))"
  then have "j < length (tasks (set_task s i st))
             \<and> readable (task_options (tasks (set_task s i st) ! j))"
    using assms(1) by (simp add: waiting_readable_def)
  then show "j < length (tasks (set_task s i st))"
    and "readable (task_options (tasks (set_task s i st) ! j))" by blast+
qed

lemma waiting_readable_request_sync:
  assumes "waiting_readable s"
  shows "waiting_readable (request_sync s i)"
  unfolding waiting_readable_def
proof (intro conjI allI impI ballI)
  fix j assume j: "j < length (tasks (request_sync s i))"
     and ns: "\<forall>r. task_state (tasks (request_sync s i) ! j) \<noteq> Settled r"
  show "readable (task_options (tasks (request_sync s i) ! j))"
  proof (cases "j = i")
    case True
    then show ?thesis using request_sync_state [of i s] j ns by auto
  next
    case False
    then show ?thesis using assms j ns by (simp add: waiting_readable_def)
  qed
next
  fix p j assume "p < length (refreshes (request_sync s i))"
     and "j \<in> set (waiters (refreshes (request_sync s i) ! p))"
  then have "j < length (tasks (request_sync s i))
             \<and> readable (task_options (tasks (request_sync s i) ! j))"
    using assms by (simp add: waiting_readable_def)
  then show "j < length (tasks (request_sync s i))"
    and "readable (task_options (tasks (request_sync s i) ! j))" by blast+
qed

lemma waiting_readable_resume:
  "waiting_readable s \<Longrightarrow> waiting_readable (resume r i s)"
  by (auto simp: resume_def waiting_readable_request_sync waiting_readable_set_task
           split: sum.splits)

lemma waiting_readable_fold_resume:
  "waiting_readable s \<Longrightarrow> waiting_readable (fold (resume r) js s)"
  by (induction js arbitrary: s) (simp_all add: waiting_readable_resume)
lemma logout_fields [simp]:
  "baseURL (logout s) = baseURL s"
  "token (logout s) = JNull"
  "refreshPromise (logout s) = None"
  "auth_token (logout s) = JNull"
  "sent (logout s) = sent s"
  "tasks (logout s) = tasks s"
  "refreshes (logout s) = refreshes s"
  by (simp_all add: logout_def)

lemma settle_waiters [simp]: "waiters (settle pr r) = waiters pr"
  by (simp add: settle_def)

lemma settle_not_pending [simp]: "p_state (settle pr r) \<noteq> Pending"
  by (simp add: settle_def split: sum.splits)

lemma settled_state_fields [simp]:
  "baseURL (settled_state s p r) = baseURL s"
  "refreshPromise (settled_state s p r) = None"
  "sent (settled_state s p r) = sent s"
  "tasks (settled_state s p r) = tasks s"
  "refreshes (settled_state s p r) = (refreshes s)[p := settle (refreshes s ! p) r]"
  by (simp_all add: settled_state_def split: sum.splits)

lemma settled_state_token:
  "token (settled_state s p (Inr tok)) = tok"
  "auth_token (settled_state s p (Inr tok)) = JStr (to_string tok)"
  "token (settled_state s p (Inl e)) = JNull"
  "auth_token (settled_state s p (Inl e)) = JNull"
  by (simp_all add: settled_state_def)

lemma on_refresh_response_eq:
  "on_refresh_response s p rep =
     fold (resume (refresh_outcome rep)) (waiters (refreshes s ! p))
       (settled_state s p (refresh_outcome rep))"
  by (cases "refresh_outcome rep") (simp_all add: on_refresh_response_def settled_state_def Let_def)

lemma waiting_readable_refresh:
  assumes "waiting_readable s" and "i < length (tasks s)" and "readable (task_options (tasks s ! i))"
  shows "waiting_readable
           (s\<lparr>sent := snt, refreshes := refreshes s @ [\<lparr>p_state = Pending, waiters = [i]\<rparr>],
              refreshPromise := rp\<rparr>)"
  using assms by (auto simp: waiting_readable_def nth_append)

lemma waiting_readable_join:
  assumes "waiting_readable s" and "i < length (tasks s)" and "readable (task_options (tasks s ! i))"
      and "p < length (refreshes s)"
  shows "waiting_readable
           (s\<lparr>refreshes := (refreshes s)
                 [p := (refreshes s ! p)\<lparr>waiters := waiters (refreshes s ! p) @ [i]\<rparr>]\<rparr>)"
  using assms by (auto simp: waiting_readable_def nth_list_update)

lemma settle_update_waiters:
  "q < length rs \<Longrightarrow> waiters (rs[p := settle (rs ! p) r] ! q) = waiters (rs ! q)"
  by (cases "q = p") simp_all

lemma waiting_readable_settled:
  assumes "waiting_readable s"
  shows "waiting_readable (settled_state s p r)"
  using assms by (auto simp: waiting_readable_def settle_update_waiters)

lemma step_waiting_readable:
  assumes "waiting_readable s"
  shows "waiting_readable (step s ev)"
proof (cases ev)
  case (Call endpoint options)
  let ?n = "length (tasks s)"
  let ?s0 = "s\<lparr>tasks := tasks s @ [\<lparr>task_endpoint = endpoint,
                                        task_options = default_options options,
                                        task_state = AwaitingResponse\<rparr>]\<rparr>"
  have eq: "step s ev = request_sync ?s0 ?n" using Call by (simp add: step_def)
  have new: "task_state (tasks (request_sync ?s0 ?n) ! ?n) = AwaitingResponse
               \<and> readable (task_options (tasks ?s0 ! ?n))
           \<or> (\<exists>e. task_state (tasks (request_sync ?s0 ?n) ! ?n) = Settled (Inl e))"
    using request_sync_state [of ?n ?s0] by simp
  show ?thesis
    unfolding eq waiting_readable_def
  proof (intro conjI)
    show "\<forall>j<length (tasks (request_sync ?s0 ?n)).
            (\<forall>r. task_state (tasks (request_sync ?s0 ?n) ! j) \<noteq> Settled r) \<longrightarrow>
            readable (task_options (tasks (request_sync ?s0 ?n) ! j))"
    proof (intro allI impI)
      fix j assume j: "j < length (tasks (request_sync ?s0 ?n))"
        and ns: "\<forall>r. task_state (tasks (request_sync ?s0 ?n) ! j) \<noteq> Settled r"
      show "readable (task_options (tasks (request_sync ?s0 ?n) ! j))"
      proof (cases "j = ?n")
        case True
        then show ?thesis using new ns by auto
      next
        case False
        then have "j < ?n" using j by simp
        then show ?thesis using assms ns False by (simp add: waiting_readable_def nth_append)
      qed
    qed
    show "\<forall>p<length (refreshes (request_sync ?s0 ?n)).
            \<forall>i\<in>set (waiters (refreshes (request_sync ?s0 ?n) ! p)).
              i < length (tasks (request_sync ?s0 ?n))
              \<and> readable (task_options (tasks (request_sync ?s0 ?n) ! i))"
    proof (intro allI impI ballI)
      fix p i assume "p < length (refreshes (request_sync ?s0 ?n))"
        and "i \<in> set (waiters (refreshes (request_sync ?s0 ?n) ! p))"
      then have "i < length (tasks s) \<and> readable (task_options (tasks s ! i))"
        using assms by (simp add: waiting_readable_def)
      then show "i < length (tasks (request_sync ?s0 ?n))
              \<and> readable (task_options (tasks (request_sync ?s0 ?n) ! i))"
        by (simp add: nth_append)
    qed
  qed
next
  case (Respond i rep)
  show ?thesis
  proof (cases "i < length (tasks s) \<and> task_state (tasks s ! i) = AwaitingResponse")
    case False
    then show ?thesis using Respond assms by (auto simp: step_def)
  next
    case True
    then have i: "i < length (tasks s)" and rd: "readable (task_options (tasks s ! i))"
      using assms by (auto simp: waiting_readable_def)
    have eq: "step s ev = on_response s i rep" using Respond True by (simp add: step_def)
    have refresh: "waiting_readable (refreshToken_sync s i)"
    proof (cases "refreshPromise s")
      case None
      then show ?thesis
        using waiting_readable_set_task waiting_readable_refresh [OF assms i rd] i rd
        by (simp add: refreshToken_sync_def Let_def)
    next
      case (Some p)
      then show ?thesis
        using waiting_readable_set_task [OF waiting_readable_join [OF assms i rd], of p i]
              waiting_readable_set_task [OF assms, of i] waiting_readable_resume [OF assms]
              i rd
        by (auto simp: refreshToken_sync_def join_refresh_def split: promise_state.splits)
    qed
    show ?thesis
      unfolding eq
      using refresh waiting_readable_set_task [OF assms, of i]
      by (auto simp: on_response_def Let_def split: reply.splits)
  qed
next
  case (RefreshRespond p rep)
  then show ?thesis
    using assms waiting_readable_fold_resume [OF waiting_readable_settled [OF assms]]
    by (auto simp: step_def on_refresh_response_eq)
next
  case Logout
  then show ?thesis using assms by (simp add: step_def waiting_readable_def)
next
  case (Login email password)
  then show ?thesis using assms by (simp add: step_def waiting_readable_def)
next
  case (LoginRespond rep)
  then show ?thesis
    using assms
    by (auto simp: step_def waiting_readable_def on_login_response_def split: sum.splits)
qed

lemma join_update_state:
  "q < length rs \<Longrightarrow>
   p_state (rs[p := (rs ! p)\<lparr>waiters := ws\<rparr>] ! q) = p_state (rs ! q)"
  by (cases "q = p") simp_all

lemma refreshToken_sync_cases:
  obtains (started) "refreshPromise s = None"
      "refreshPromise (refreshToken_sync s i) = Some (length (refreshes s))"
      "refreshes (refreshToken_sync s i) = refreshes s @ [\<lparr>p_state = Pending, waiters = [i]\<rparr>]"
  | (joined) p where "refreshPromise s = Some p"
      "refreshPromise (refreshToken_sync s i) = Some p"
      "length (refreshes (refreshToken_sync s i)) = length (refreshes s)"
      "\<forall>q < length (refreshes s).
         p_state (refreshes (refreshToken_sync s i) ! q) = p_state (refreshes s ! q)"
proof (cases "refreshPromise s")
  case None
  then show thesis using started by (simp add: refreshToken_sync_def Let_def)
next
  case (Some p)
  then show thesis
    using joined [of p]
    by (auto simp: refreshToken_sync_def join_refresh_def join_update_state
             split: promise_state.splits)
qed

lemma on_response_cases:
  obtains (same) "refreshPromise (on_response s i rep) = refreshPromise s"
      "refreshes (on_response s i rep) = refreshes s"
  | (refresh) "on_response s i rep = refreshToken_sync s i"
proof (cases rep)
  case (Failure e)
  then show thesis using same by (simp add: on_response_def)
next
  case (Answer st reason b)
  show thesis
  proof (cases "st = 401")
    case True
    then show thesis using refresh Answer by (simp add: on_response_def)
  next
    case False
    then show thesis using same Answer by (simp add: on_response_def Let_def)
  qed
qed

lemma step_stored_is_pending:
  assumes "stored_is_pending s"
  shows "stored_is_pending (step s ev)"
proof (cases ev)
  case (Call endpoint options)
  then show ?thesis using assms by (auto simp: step_def stored_is_pending_def split: option.splits)
next
  case (Respond i rep)
  show ?thesis
  proof (cases "i < length (tasks s) \<and> task_state (tasks s ! i) = AwaitingResponse")
    case False
    then show ?thesis using Respond assms by (auto simp: step_def)
  next
    case True
    then have eq: "step s ev = on_response s i rep" using Respond by (simp add: step_def)
    show ?thesis
    proof (cases rule: on_response_cases [of s i rep])
      case same
      then show ?thesis using assms eq by (auto simp: stored_is_pending_def split: option.splits)
    next
      case refresh
      show ?thesis
      proof (cases rule: refreshToken_sync_cases [of s i])
        case started
        then show ?thesis using eq refresh by (auto simp: stored_is_pending_def split: option.splits)
      next
        case (joined p)
        then show ?thesis using assms eq refresh by (auto simp: stored_is_pending_def split: option.splits)
      qed
    qed
  qed
next
  case (RefreshRespond p rep)
  then show ?thesis
    using assms by (auto simp: step_def on_refresh_response_eq stored_is_pending_def split: option.splits)
next
  case Logout
  then show ?thesis by (auto simp: step_def stored_is_pending_def split: option.splits)
next
  case (Login email password)
  then show ?thesis
    using assms by (auto simp: step_def stored_is_pending_def split: option.splits)
next
  case (LoginRespond rep)
  then show ?thesis
    using assms
    by (auto simp: step_def stored_is_pending_def on_login_response_def
             split: option.splits sum.splits)
qed

lemma step_pending_is_stored:
  assumes "pending_is_stored s" and "ev \<noteq> Logout"
  shows "pending_is_stored (step s ev)"
proof (cases ev)
  case (Call endpoint options)
  then show ?thesis using assms by (simp add: step_def pending_is_stored_def)
next
  case (Respond i rep)
  show ?thesis
  proof (cases "i < length (tasks s) \<and> task_state (tasks s ! i) = AwaitingResponse")
    case False
    then show ?thesis using Respond assms by (auto simp: step_def)
  next
    case True
    then have eq: "step s ev = on_response s i rep" using Respond by (simp add: step_def)
    show ?thesis
    proof (cases rule: on_response_cases [of s i rep])
      case same
      then show ?thesis using assms eq by (simp add: pending_is_stored_def)
    next
      case refresh
      show ?thesis
      proof (cases rule: refreshToken_sync_cases [of s i])
        case started
        then show ?thesis
          using assms(1) eq refresh
          by (auto simp: pending_is_stored_def nth_append less_Suc_eq)
      next
        case (joined p)
        then show ?thesis using assms(1) eq refresh by (simp add: pending_is_stored_def)
      qed
    qed
  qed
next
  case (RefreshRespond p rep)
  show ?thesis
  proof (cases "p < length (refreshes s) \<and> p_state (refreshes s ! p) = Pending")
    case False
    then show ?thesis using RefreshRespond assms by (auto simp: step_def)
  next
    case True
    then have stored: "refreshPromise s = Some p" using assms(1) by (simp add: pending_is_stored_def)
    have "\<forall>q < length (refreshes s).
            p_state ((refreshes s)[p := settle (refreshes s ! p) (refresh_outcome rep)] ! q) \<noteq> Pending"
    proof (intro allI impI)
      fix q assume q: "q < length (refreshes s)"
      show "p_state ((refreshes s)[p := settle (refreshes s ! p) (refresh_outcome rep)] ! q) \<noteq> Pending"
      proof (cases "q = p")
        case True
        then show ?thesis using q by simp
      next
        case False
        then have "p_state (refreshes s ! q) \<noteq> Pending"
          using assms(1) stored q by (auto simp: pending_is_stored_def)
        then show ?thesis using False by simp
      qed
    qed
    then show ?thesis
      using RefreshRespond True
      by (simp add: step_def on_refresh_response_eq pending_is_stored_def)
  qed
next
  case Logout
  then show ?thesis using assms by simp
next
  case (Login email password)
  then show ?thesis using assms by (simp add: step_def pending_is_stored_def)
next
  case (LoginRespond rep)
  then show ?thesis
    using assms
    by (auto simp: step_def pending_is_stored_def on_login_response_def split: sum.splits)
qed

text \<open>The three properties hold of a new service and along every run.\<close>

lemma run_snoc: "run s (evs @ [ev]) = step (run s evs) ev"
  by (simp add: run_def)

lemma new_AuthAPI_invariant:
  "stored_is_pending (new_AuthAPI url stored)"
  "pending_is_stored (new_AuthAPI url stored)"
  "waiting_readable (new_AuthAPI url stored)"
  by (simp_all add: new_AuthAPI_def stored_is_pending_def pending_is_stored_def
        waiting_readable_def)

lemma run_stored_is_pending:
  "stored_is_pending s \<Longrightarrow> stored_is_pending (run s evs)"
  by (induction evs rule: rev_induct) (simp_all add: run_def step_stored_is_pending)

lemma run_waiting_readable:
  "waiting_readable s \<Longrightarrow> waiting_readable (run s evs)"
  by (induction evs rule: rev_induct) (simp_all add: run_def step_waiting_readable)

lemma run_pending_is_stored:
  "pending_is_stored s \<Longrightarrow> Logout \<notin> set evs \<Longrightarrow> pending_is_stored (run s evs)"
proof (induction evs rule: rev_induct)
  case Nil
  then show ?case by (simp add: run_def)
next
  case (snoc ev evs)
  then have "pending_is_stored (run s evs)" and "ev \<noteq> Logout" by auto
  then show ?case using step_pending_is_stored by (simp add: run_snoc)
qed


lemma mark_waiting_length [simp]: "length (mark_waiting p js ts) = length ts"
  unfolding mark_waiting_def by (induction js arbitrary: ts) simp_all



lemma mark_waiting_options [simp]:
  "task_options (mark_waiting p js ts ! i) = task_options (ts ! i)"
  "task_endpoint (mark_waiting p js ts ! i) = task_endpoint (ts ! i)"
proof -
  have "task_options (mark_waiting p js ts ! i) = task_options (ts ! i)
        \<and> task_endpoint (mark_waiting p js ts ! i) = task_endpoint (ts ! i)"
    unfolding mark_waiting_def
  proof (induction js arbitrary: ts)
    case Nil
    then show ?case by simp
  next
    case (Cons j js)
    have "task_options (ts[j := (ts ! j)\<lparr>task_state := AwaitingRefresh p\<rparr>] ! i) = task_options (ts ! i)
          \<and> task_endpoint (ts[j := (ts ! j)\<lparr>task_state := AwaitingRefresh p\<rparr>] ! i) = task_endpoint (ts ! i)"
      by (cases "i = j"; cases "j < length ts") (simp_all add: list_update_beyond)
    then show ?case using Cons.IH [of "ts[j := (ts ! j)\<lparr>task_state := AwaitingRefresh p\<rparr>]"] by simp
  qed
  then show "task_options (mark_waiting p js ts ! i) = task_options (ts ! i)"
    and "task_endpoint (mark_waiting p js ts ! i) = task_endpoint (ts ! i)" by simp_all
qed


lemma sharing_fields [simp]:
  "baseURL (sharing s js) = baseURL s"
  "token (sharing s js) = token s"
  "auth_token (sharing s js) = auth_token s"
  "refreshPromise (sharing s js) = Some (length (refreshes s))"
  "sent (sharing s js) = sent s @ [(baseURL s @ ''/auth/refresh'', refresh_init s)]"
  "refreshes (sharing s js) = refreshes s @ [\<lparr>p_state = Pending, waiters = js\<rparr>]"
  "tasks (sharing s js) = mark_waiting (length (refreshes s)) js (tasks s)"
  by (simp_all add: sharing_def)

text \<open>
  The first 401 starts the refresh; a 401 that arrives while the refresh is pending joins
  it.
\<close>

lemma first_unauthorized:
  assumes "refreshPromise s = None" and "i < length (tasks s)"
      and "task_state (tasks s ! i) = AwaitingResponse"
  shows "step s (Respond i (Answer 401 reason b)) = sharing s [i]"
  using assms
  by (simp add: step_def on_response_def refreshToken_sync_def Let_def set_task_def sharing_def
        mark_waiting_def)



lemma request_of_cong:
  "baseURL u' = baseURL u \<Longrightarrow> task_endpoint (tasks u' ! i) = task_endpoint (tasks u ! i) \<Longrightarrow>
   task_options (tasks u' ! i) = task_options (tasks u ! i) \<Longrightarrow>
   request_of u' tok i = request_of u tok i"
  by (simp add: request_of_def)

text \<open>
  The waiting tasks go on after a refresh that succeeded, while the service holds a token:
  each sends its request again, in the order in which they came to wait.
\<close>

lemma fold_resume_success:
  assumes "truthy (token u)" and "distinct js"
      and "\<forall>i \<in> set js. i < length (tasks u) \<and> readable (task_options (tasks u ! i))"
  shows "sent (fold (resume (Inr v)) js u) = sent u @ map (request_of u (token u)) js
       \<and> token (fold (resume (Inr v)) js u) = token u
       \<and> (\<forall>i \<in> set js. tasks (fold (resume (Inr v)) js u) ! i
                           = (tasks u ! i)\<lparr>task_state := AwaitingResponse\<rparr>)
       \<and> (\<forall>j. j \<notin> set js \<longrightarrow> tasks (fold (resume (Inr v)) js u) ! j = tasks u ! j)"
  using assms
proof (induction js arbitrary: u)
  case Nil
  then show ?case by simp
next
  case (Cons i js)
  let ?u1 = "request_sync u i"
  have i: "i < length (tasks u)" "readable (task_options (tasks u ! i))" "i \<notin> set js"
    using Cons.prems by auto
  note sends = request_sync_sends [OF i(1,2) Cons.prems(1)]
  have tok1: "truthy (token ?u1)" using sends(3) Cons.prems(1) by simp
  have rest: "\<forall>j \<in> set js. j < length (tasks ?u1) \<and> readable (task_options (tasks ?u1 ! j))"
    using Cons.prems(3) by simp
  have dist: "distinct js" using Cons.prems(2) by simp
  note ih = Cons.IH [OF tok1 dist rest]
  have same_requests: "map (request_of ?u1 (token ?u1)) js = map (request_of u (token u)) js"
  proof (rule map_cong [OF refl])
    fix j assume "j \<in> set js"
    then have "j \<noteq> i" using i(3) by auto
    then show "request_of ?u1 (token ?u1) j = request_of u (token u) j"
      using sends(3) by (simp add: request_of_def)
  qed
  have eq: "fold (resume (Inr v)) (i # js) u = fold (resume (Inr v)) js ?u1"
    by (simp add: resume_def)
  show ?case
    unfolding eq
  proof (intro conjI)
    show "sent (fold (resume (Inr v)) js ?u1) = sent u @ map (request_of u (token u)) (i # js)"
      using ih sends(2) same_requests by simp
    show "token (fold (resume (Inr v)) js ?u1) = token u"
      using ih sends(3) by simp
    show "\<forall>k \<in> set (i # js). tasks (fold (resume (Inr v)) js ?u1) ! k
                           = (tasks u ! k)\<lparr>task_state := AwaitingResponse\<rparr>"
    proof
      fix k assume k: "k \<in> set (i # js)"
      show "tasks (fold (resume (Inr v)) js ?u1) ! k = (tasks u ! k)\<lparr>task_state := AwaitingResponse\<rparr>"
      proof (cases "k = i")
        case True
        then have "tasks (fold (resume (Inr v)) js ?u1) ! k = tasks ?u1 ! k"
          using ih i(3) by blast
        then show ?thesis using True sends(1) by simp
      next
        case False
        then have "k \<in> set js" using k by simp
        then have "tasks (fold (resume (Inr v)) js ?u1) ! k
                     = (tasks ?u1 ! k)\<lparr>task_state := AwaitingResponse\<rparr>"
          using ih by blast
        then show ?thesis using False by simp
      qed
    qed
    show "\<forall>j. j \<notin> set (i # js) \<longrightarrow> tasks (fold (resume (Inr v)) js ?u1) ! j = tasks u ! j"
    proof (intro allI impI)
      fix j assume "j \<notin> set (i # js)"
      then have "j \<notin> set js" "j \<noteq> i" by auto
      then show "tasks (fold (resume (Inr v)) js ?u1) ! j = tasks u ! j"
        using ih by simp
    qed
  qed
qed

text \<open>After a refresh that failed, each waiting task settles with the error of the refresh.\<close>

lemma fold_resume_failure:
  assumes "\<forall>i \<in> set js. i < length (tasks u)"
  shows "sent (fold (resume (Inl e)) js u) = sent u
       \<and> token (fold (resume (Inl e)) js u) = token u
       \<and> (\<forall>i \<in> set js. task_state (tasks (fold (resume (Inl e)) js u) ! i) = Settled (Inl e))
       \<and> (\<forall>j. j \<notin> set js \<longrightarrow> tasks (fold (resume (Inl e)) js u) ! j = tasks u ! j)"
  using assms
proof (induction js arbitrary: u rule: rev_induct)
  case Nil
  then show ?case by simp
next
  case (snoc i js)
  let ?u1 = "fold (resume (Inl e)) js u"
  have ih: "sent ?u1 = sent u \<and> token ?u1 = token u
       \<and> (\<forall>i \<in> set js. task_state (tasks ?u1 ! i) = Settled (Inl e))
       \<and> (\<forall>j. j \<notin> set js \<longrightarrow> tasks ?u1 ! j = tasks u ! j)"
    using snoc.IH [of u] snoc.prems by simp
  have i: "i < length (tasks ?u1)" using snoc.prems by simp
  have eq: "fold (resume (Inl e)) (js @ [i]) u = set_task ?u1 i (Settled (Inl e))"
    by (simp add: resume_def)
  show ?case
    unfolding eq
  proof (intro conjI)
    show "sent (set_task ?u1 i (Settled (Inl e))) = sent u" using ih by simp
    show "token (set_task ?u1 i (Settled (Inl e))) = token u" using ih by simp
    show "\<forall>k \<in> set (js @ [i]). task_state (tasks (set_task ?u1 i (Settled (Inl e))) ! k) = Settled (Inl e)"
    proof
      fix k assume "k \<in> set (js @ [i])"
      then show "task_state (tasks (set_task ?u1 i (Settled (Inl e))) ! k) = Settled (Inl e)"
        using ih i by (cases "k = i") simp_all
    qed
    show "\<forall>j. j \<notin> set (js @ [i]) \<longrightarrow> tasks (set_task ?u1 i (Settled (Inl e))) ! j = tasks u ! j"
      using ih by simp
  qed
qed

lemma sharing_settles:
  "step (sharing s js) (RefreshRespond (length (refreshes s)) rep)
     = fold (resume (refresh_outcome rep)) js
         (settled_state (sharing s js) (length (refreshes s)) (refresh_outcome rep))"
  by (simp add: step_def on_refresh_response_eq)

text \<open>The shared refresh succeeds: the token is replaced and every waiting task sends its
  request again with it.\<close>

lemma shared_refresh_succeeds:
  assumes "refresh_outcome rep = Inr tok" and "truthy tok" and "distinct js"
      and "\<forall>i \<in> set js. i < length (tasks s) \<and> readable (task_options (tasks s ! i))"
  shows "token (step (sharing s js) (RefreshRespond (length (refreshes s)) rep)) = tok"
    and "auth_token (step (sharing s js) (RefreshRespond (length (refreshes s)) rep))
           = JStr (to_string tok)"
    and "refreshPromise (step (sharing s js) (RefreshRespond (length (refreshes s)) rep)) = None"
    and "refreshes (step (sharing s js) (RefreshRespond (length (refreshes s)) rep))
           = refreshes s @ [\<lparr>p_state = Fulfilled tok, waiters = js\<rparr>]"
    and "sent (step (sharing s js) (RefreshRespond (length (refreshes s)) rep))
           = sent (sharing s js) @ map (request_of s tok) js"
    and "\<forall>i \<in> set js. task_state (tasks (step (sharing s js)
                                    (RefreshRespond (length (refreshes s)) rep)) ! i)
                         = AwaitingResponse"
proof -
  let ?p = "length (refreshes s)"
  let ?u = "settled_state (sharing s js) ?p (Inr tok)"
  let ?s2 = "step (sharing s js) (RefreshRespond ?p rep)"
  have s2: "?s2 = fold (resume (Inr tok)) js ?u"
    using sharing_settles [of s js rep] assms(1) by simp
  have tok: "token ?u = tok" by (simp add: settled_state_token)
  have ready: "\<forall>i \<in> set js. i < length (tasks ?u) \<and> readable (task_options (tasks ?u ! i))"
    using assms(4) by simp
  have truthy_u: "truthy (token ?u)" using tok assms(2) by simp
  note run = fold_resume_success [OF truthy_u assms(3) ready, of tok]
  have reqs: "map (request_of ?u (token ?u)) js = map (request_of s tok) js"
    by (rule map_cong [OF refl]) (simp add: request_of_def tok)
  show "token ?s2 = tok" using run tok s2 by simp
  show "auth_token ?s2 = JStr (to_string tok)" using s2 by (simp add: settled_state_token)
  show "refreshPromise ?s2 = None" using s2 by simp
  show "refreshes ?s2 = refreshes s @ [\<lparr>p_state = Fulfilled tok, waiters = js\<rparr>]"
    using s2 by (simp add: settle_def)
  show "sent ?s2 = sent (sharing s js) @ map (request_of s tok) js"
    using run reqs s2 by simp
  show "\<forall>i \<in> set js. task_state (tasks ?s2 ! i) = AwaitingResponse"
    using run s2 by simp
qed




lemma run_append: "run s (evs @ evs') = run (run s evs) evs'"
  by (simp add: run_def)




lemma settled_in_flight:
  assumes "refreshes s2 = refreshes s @ [\<lparr>p_state = st, waiters = js\<rparr>]" and "st \<noteq> Pending"
  shows "in_flight s2 = in_flight s"
  using assms by (simp add: in_flight_def)



lemma loaded_token_request_sync [simp]: "loaded_token (request_sync s i) = loaded_token s"
  by (simp add: loaded_token_def request_sync_token)

lemma request_sync_sends_loaded:
  assumes "i < length (tasks s)" and "readable (task_options (tasks s ! i))"
  shows "tasks (request_sync s i) ! i = (tasks s ! i)\<lparr>task_state := AwaitingResponse\<rparr>"
    and "sent (request_sync s i) = sent s @ [request_of s (loaded_token s) i]"
  using assms request_init_readable [OF assms(2), of "token s"]
        request_init_readable [OF assms(2), of "auth_token s"]
  by (auto simp: request_sync_def Let_def request_of_def loaded_token_def split: sum.splits)

lemma resume_other: "j \<noteq> i \<Longrightarrow> tasks (resume r i s) ! j = tasks s ! j"
  by (simp add: resume_def split: sum.splits)

lemma fold_resume_other: "j \<notin> set js \<Longrightarrow> tasks (fold (resume r) js u) ! j = tasks u ! j"
  by (induction js arbitrary: u) (simp_all add: resume_other)

lemma fold_resume_sends:
  assumes "distinct js"
      and "\<forall>i \<in> set js. i < length (tasks u) \<and> readable (task_options (tasks u ! i))"
  shows "sent (fold (resume (Inr v)) js u) = sent u @ map (request_of u (loaded_token u)) js
       \<and> token (fold (resume (Inr v)) js u) = (if js = [] then token u else loaded_token u)
       \<and> (\<forall>i \<in> set js. tasks (fold (resume (Inr v)) js u) ! i
                           = (tasks u ! i)\<lparr>task_state := AwaitingResponse\<rparr>)"
  using assms
proof (induction js arbitrary: u)
  case Nil
  then show ?case by simp
next
  case (Cons i js)
  let ?u1 = "request_sync u i"
  have i: "i < length (tasks u)" "readable (task_options (tasks u ! i))" "i \<notin> set js"
    using Cons.prems by auto
  note sends = request_sync_sends_loaded [OF i(1,2)]
  have rest: "\<forall>j \<in> set js. j < length (tasks ?u1) \<and> readable (task_options (tasks ?u1 ! j))"
    using Cons.prems(2) by simp
  have dist: "distinct js" using Cons.prems(1) by simp
  note ih = Cons.IH [OF dist rest]
  have same_requests: "map (request_of ?u1 (loaded_token ?u1)) js = map (request_of u (loaded_token u)) js"
  proof (rule map_cong [OF refl])
    fix j assume "j \<in> set js"
    then have "j \<noteq> i" using i(3) by auto
    then show "request_of ?u1 (loaded_token ?u1) j = request_of u (loaded_token u) j"
      by (simp add: request_of_def)
  qed
  have eq: "fold (resume (Inr v)) (i # js) u = fold (resume (Inr v)) js ?u1"
    by (simp add: resume_def)
  have tok1: "token ?u1 = loaded_token u" by (simp add: request_sync_token loaded_token_def)
  show ?case
    unfolding eq
  proof (intro conjI)
    show "sent (fold (resume (Inr v)) js ?u1) = sent u @ map (request_of u (loaded_token u)) (i # js)"
      using ih sends(2) same_requests by simp
    show "token (fold (resume (Inr v)) js ?u1) = (if i # js = [] then token u else loaded_token u)"
      using ih tok1 by simp
    show "\<forall>k \<in> set (i # js). tasks (fold (resume (Inr v)) js ?u1) ! k
                           = (tasks u ! k)\<lparr>task_state := AwaitingResponse\<rparr>"
    proof
      fix k assume k: "k \<in> set (i # js)"
      show "tasks (fold (resume (Inr v)) js ?u1) ! k = (tasks u ! k)\<lparr>task_state := AwaitingResponse\<rparr>"
      proof (cases "k = i")
        case True
        then have "tasks (fold (resume (Inr v)) js ?u1) ! k = tasks ?u1 ! k"
          using fold_resume_other i(3) by simp
        then show ?thesis using True sends(1) by simp
      next
        case False
        then have "k \<in> set js" using k by simp
        then have "tasks (fold (resume (Inr v)) js ?u1) ! k
                     = (tasks ?u1 ! k)\<lparr>task_state := AwaitingResponse\<rparr>"
          using ih by blast
        then show ?thesis using False by simp
      qed
    qed
  qed
qed

text \<open>
  The response to the refresh request of a pending promise arrives, in any state of the
  service.
\<close>

lemma refresh_settles_success:
  assumes "p < length (refreshes s)" and "p_state (refreshes s ! p) = Pending"
      and "refresh_outcome rep = Inr tok"
      and "distinct (waiters (refreshes s ! p))"
      and "\<forall>i \<in> set (waiters (refreshes s ! p)).
             i < length (tasks s) \<and> readable (task_options (tasks s ! i))"
  shows "sent (step s (RefreshRespond p rep))
           = sent s @ map (request_of s (if truthy tok then tok else JStr (to_string tok)))
                        (waiters (refreshes s ! p))"
    and "auth_token (step s (RefreshRespond p rep)) = JStr (to_string tok)"
    and "refreshPromise (step s (RefreshRespond p rep)) = None"
    and "waiters (refreshes s ! p) \<noteq> [] \<Longrightarrow>
         token (step s (RefreshRespond p rep)) = (if truthy tok then tok else JStr (to_string tok))"
    and "\<forall>i \<in> set (waiters (refreshes s ! p)).
           task_state (tasks (step s (RefreshRespond p rep)) ! i) = AwaitingResponse"
    and "refreshes (step s (RefreshRespond p rep))
           = (refreshes s)[p := settle (refreshes s ! p) (Inr tok)]"
proof -
  let ?js = "waiters (refreshes s ! p)"
  let ?u = "settled_state s p (Inr tok)"
  let ?s2 = "step s (RefreshRespond p rep)"
  have s2: "?s2 = fold (resume (Inr tok)) ?js ?u"
    using assms(1,2,3) by (simp add: step_def on_refresh_response_eq)
  have ready: "\<forall>i \<in> set ?js. i < length (tasks ?u) \<and> readable (task_options (tasks ?u ! i))"
    using assms(5) by simp
  note run = fold_resume_sends [OF assms(4) ready, of tok]
  have loaded: "loaded_token ?u = (if truthy tok then tok else JStr (to_string tok))"
    by (simp add: loaded_token_def settled_state_token)
  have reqs: "map (request_of ?u (loaded_token ?u)) ?js
                = map (request_of s (if truthy tok then tok else JStr (to_string tok))) ?js"
    by (rule map_cong [OF refl]) (simp add: request_of_def loaded)
  show "sent ?s2 = sent s @ map (request_of s (if truthy tok then tok else JStr (to_string tok))) ?js"
    using run reqs s2 by simp
  show "auth_token ?s2 = JStr (to_string tok)" using s2 by (simp add: settled_state_token)
  show "refreshPromise ?s2 = None" using s2 by simp
  show "token ?s2 = (if truthy tok then tok else JStr (to_string tok))" if "?js \<noteq> []"
    using run s2 loaded that by simp
  show "\<forall>i \<in> set ?js. task_state (tasks ?s2 ! i) = AwaitingResponse"
    using run s2 by simp
  show "refreshes ?s2 = (refreshes s)[p := settle (refreshes s ! p) (Inr tok)]"
    using s2 by simp
qed

lemma refresh_settles_failure:
  assumes "p < length (refreshes s)" and "p_state (refreshes s ! p) = Pending"
      and "refresh_outcome rep = Inl e"
      and "\<forall>i \<in> set (waiters (refreshes s ! p)). i < length (tasks s)"
  shows "token (step s (RefreshRespond p rep)) = JNull"
    and "auth_token (step s (RefreshRespond p rep)) = JNull"
    and "refreshPromise (step s (RefreshRespond p rep)) = None"
    and "sent (step s (RefreshRespond p rep)) = sent s"
    and "\<forall>i \<in> set (waiters (refreshes s ! p)).
           task_state (tasks (step s (RefreshRespond p rep)) ! i) = Settled (Inl e)"
    and "refreshes (step s (RefreshRespond p rep))
           = (refreshes s)[p := settle (refreshes s ! p) (Inl e)]"
proof -
  let ?js = "waiters (refreshes s ! p)"
  let ?u = "settled_state s p (Inl e)"
  let ?s2 = "step s (RefreshRespond p rep)"
  have s2: "?s2 = fold (resume (Inl e)) ?js ?u"
    using assms(1,2,3) by (simp add: step_def on_refresh_response_eq)
  have ready: "\<forall>i \<in> set ?js. i < length (tasks ?u)" using assms(4) by simp
  note run = fold_resume_failure [OF ready, of e]
  show "token ?s2 = JNull" using run s2 by (simp add: settled_state_token)
  show "auth_token ?s2 = JNull" using s2 by (simp add: settled_state_token)
  show "refreshPromise ?s2 = None" using s2 by simp
  show "sent ?s2 = sent s" using run s2 by simp
  show "\<forall>i \<in> set ?js. task_state (tasks ?s2 ! i) = Settled (Inl e)" using run s2 by simp
  show "refreshes ?s2 = (refreshes s)[p := settle (refreshes s ! p) (Inl e)]"
    using s2 by simp
qed


text \<open>
  An operation that touches no promise and only a task that waits for its response keeps
  the waiters waiting.
\<close>

lemma waiters_wait_only_task:
  assumes "waiters_wait s" and "task_state (tasks s ! i) = AwaitingResponse"
      and "refreshes s' = refreshes s" and "\<forall>j. j \<noteq> i \<longrightarrow> tasks s' ! j = tasks s ! j"
  shows "waiters_wait s'"
  unfolding waiters_wait_def
proof (intro allI impI conjI ballI)
  fix p assume p: "p < length (refreshes s')" "p_state (refreshes s' ! p) = Pending"
  then have old: "distinct (waiters (refreshes s ! p))
        \<and> (\<forall>j \<in> set (waiters (refreshes s ! p)). task_state (tasks s ! j) = AwaitingRefresh p)"
    using assms(1,3) by (simp add: waiters_wait_def)
  show "distinct (waiters (refreshes s' ! p))" using old assms(3) by simp
  fix j assume "j \<in> set (waiters (refreshes s' ! p))"
  then have j: "task_state (tasks s ! j) = AwaitingRefresh p" using old assms(3) by simp
  then have "j \<noteq> i" using assms(2) by auto
  then show "task_state (tasks s' ! j) = AwaitingRefresh p" using j assms(4) by simp
qed

lemma waiters_wait_sharing:
  assumes "waiters_wait s" and "i < length (tasks s)"
      and "task_state (tasks s ! i) = AwaitingResponse"
  shows "waiters_wait (sharing s [i])"
  unfolding waiters_wait_def
proof (intro allI impI conjI ballI)
  fix p assume p: "p < length (refreshes (sharing s [i]))"
     "p_state (refreshes (sharing s [i]) ! p) = Pending"
  show "distinct (waiters (refreshes (sharing s [i]) ! p))"
    using p assms(1) by (cases "p < length (refreshes s)") (auto simp: waiters_wait_def nth_append)
  fix j assume j: "j \<in> set (waiters (refreshes (sharing s [i]) ! p))"
  show "task_state (tasks (sharing s [i]) ! j) = AwaitingRefresh p"
  proof (cases "p < length (refreshes s)")
    case True
    then have "task_state (tasks s ! j) = AwaitingRefresh p"
      using p j assms(1) by (auto simp: waiters_wait_def nth_append)
    moreover from this have "j \<noteq> i" using assms(3) by auto
    ultimately show ?thesis by (simp add: mark_waiting_def)
  next
    case False
    then have "p = length (refreshes s)" using p(1) by simp
    then show ?thesis using j assms(2) by (simp add: mark_waiting_def)
  qed
qed

lemma waiters_wait_join:
  assumes "waiters_wait s" and "i < length (tasks s)"
      and "task_state (tasks s ! i) = AwaitingResponse"
      and "p < length (refreshes s)" and "p_state (refreshes s ! p) = Pending"
  shows "waiters_wait
           (set_task (s\<lparr>refreshes := (refreshes s)
                           [p := (refreshes s ! p)\<lparr>waiters := waiters (refreshes s ! p) @ [i]\<rparr>]\<rparr>)
              i (AwaitingRefresh p))"
    (is "waiters_wait ?s'")
  unfolding waiters_wait_def
proof (intro allI impI conjI ballI)
  fix q assume q: "q < length (refreshes ?s')" "p_state (refreshes ?s' ! q) = Pending"
  then have q_old: "q < length (refreshes s)" "p_state (refreshes s ! q) = Pending"
    by (simp_all add: join_update_state)
  then have old: "distinct (waiters (refreshes s ! q))"
      "\<forall>j \<in> set (waiters (refreshes s ! q)). task_state (tasks s ! j) = AwaitingRefresh q"
    using assms(1) by (simp_all add: waiters_wait_def)
  have not_waiting: "i \<notin> set (waiters (refreshes s ! q))"
    using old(2) assms(3) by auto
  show "distinct (waiters (refreshes ?s' ! q))"
    using old(1) not_waiting q_old(1) by (cases "q = p") simp_all
  fix j assume j: "j \<in> set (waiters (refreshes ?s' ! q))"
  show "task_state (tasks ?s' ! j) = AwaitingRefresh q"
  proof (cases "j = i")
    case True
    then have "q = p"
      using j not_waiting q_old(1) by (cases "q = p") simp_all
    then show ?thesis using True assms(2) by simp
  next
    case False
    then have "j \<in> set (waiters (refreshes s ! q))"
      using j q_old(1) by (cases "q = p") simp_all
    then show ?thesis using old(2) False by simp
  qed
qed

lemma step_waiters_wait:
  assumes "waiters_wait s" and "waiting_readable s"
  shows "waiters_wait (step s ev)"
proof (cases ev)
  case (Call endpoint options)
  let ?n = "length (tasks s)"
  let ?s0 = "s\<lparr>tasks := tasks s @ [\<lparr>task_endpoint = endpoint,
                                        task_options = default_options options,
                                        task_state = AwaitingResponse\<rparr>]\<rparr>"
  have eq: "step s ev = request_sync ?s0 ?n" using Call by (simp add: step_def)
  show ?thesis
    unfolding waiters_wait_def eq
  proof (intro allI impI conjI ballI)
    fix p assume p: "p < length (refreshes (request_sync ?s0 ?n))"
       "p_state (refreshes (request_sync ?s0 ?n) ! p) = Pending"
    then have old: "distinct (waiters (refreshes s ! p))"
        "\<forall>j \<in> set (waiters (refreshes s ! p)). task_state (tasks s ! j) = AwaitingRefresh p"
      using assms(1) by (simp_all add: waiters_wait_def)
    show "distinct (waiters (refreshes (request_sync ?s0 ?n) ! p))" using old(1) by simp
    fix j assume j: "j \<in> set (waiters (refreshes (request_sync ?s0 ?n) ! p))"
    then have "j < length (tasks s)" using p(1) assms(2) by (simp add: waiting_readable_def)
    then have "tasks (request_sync ?s0 ?n) ! j = tasks s ! j" by (simp add: nth_append)
    then show "task_state (tasks (request_sync ?s0 ?n) ! j) = AwaitingRefresh p"
      using old(2) j by simp
  qed
next
  case (Respond i rep)
  show ?thesis
  proof (cases "i < length (tasks s) \<and> task_state (tasks s ! i) = AwaitingResponse")
    case False
    then show ?thesis using Respond assms by (auto simp: step_def)
  next
    case True
    then have eq: "step s ev = on_response s i rep" using Respond by (simp add: step_def)
    show ?thesis
    proof (cases "\<exists>reason b. rep = Answer 401 reason b")
      case False
      then have "refreshes (on_response s i rep) = refreshes s
               \<and> (\<forall>j. j \<noteq> i \<longrightarrow> tasks (on_response s i rep) ! j = tasks s ! j)"
        by (cases rep) (auto simp: on_response_def Let_def)
      then show ?thesis
        using waiters_wait_only_task [OF assms(1), of i "on_response s i rep"] True eq by simp
    next
      case unauthorized: True
      then obtain reason b where rep: "rep = Answer 401 reason b" by blast
      then have sync: "on_response s i rep = refreshToken_sync s i" by (simp add: on_response_def)
      show ?thesis
      proof (cases "refreshPromise s")
        case None
        then have "step s ev = sharing s [i]"
          using first_unauthorized [OF None, of i reason b] True Respond rep by simp
        then show ?thesis using waiters_wait_sharing [OF assms(1)] True by simp
      next
        case (Some p)
        show ?thesis
        proof (cases "p < length (refreshes s) \<and> p_state (refreshes s ! p) = Pending")
          case pending: True
          then have "step s ev
              = set_task (s\<lparr>refreshes := (refreshes s)
                              [p := (refreshes s ! p)\<lparr>waiters := waiters (refreshes s ! p) @ [i]\<rparr>]\<rparr>)
                  i (AwaitingRefresh p)"
            using eq sync Some by (simp add: refreshToken_sync_def join_refresh_def)
          then show ?thesis using waiters_wait_join [OF assms(1)] True pending by simp
        next
          case False
          then have "refreshes (refreshToken_sync s i) = refreshes s
               \<and> (\<forall>j. j \<noteq> i \<longrightarrow> tasks (refreshToken_sync s i) ! j = tasks s ! j)"
            using Some
            by (auto simp: refreshToken_sync_def join_refresh_def resume_def
                     split: promise_state.splits sum.splits)
          then show ?thesis
            using waiters_wait_only_task [OF assms(1), of i "refreshToken_sync s i"] True eq sync
            by simp
        qed
      qed
    qed
  qed
next
  case (RefreshRespond p rep)
  show ?thesis
  proof (cases "p < length (refreshes s) \<and> p_state (refreshes s ! p) = Pending")
    case False
    then show ?thesis using RefreshRespond assms by (auto simp: step_def)
  next
    case True
    let ?js = "waiters (refreshes s ! p)"
    let ?r = "refresh_outcome rep"
    have eq: "step s ev = fold (resume ?r) ?js (settled_state s p ?r)"
      using RefreshRespond True by (simp add: step_def on_refresh_response_eq)
    have js: "\<forall>j \<in> set ?js. task_state (tasks s ! j) = AwaitingRefresh p"
      using assms(1) True by (simp add: waiters_wait_def)
    show ?thesis
      unfolding waiters_wait_def eq
    proof (intro allI impI conjI ballI)
      fix q assume q: "q < length (refreshes (fold (resume ?r) ?js (settled_state s p ?r)))"
         "p_state (refreshes (fold (resume ?r) ?js (settled_state s p ?r)) ! q) = Pending"
      then have ne: "q \<noteq> p" by (cases "q = p") simp_all
      then have q_old: "q < length (refreshes s)" "p_state (refreshes s ! q) = Pending"
        using q by simp_all
      then have old: "distinct (waiters (refreshes s ! q))"
          "\<forall>j \<in> set (waiters (refreshes s ! q)). task_state (tasks s ! j) = AwaitingRefresh q"
        using assms(1) by (simp_all add: waiters_wait_def)
      show "distinct (waiters (refreshes (fold (resume ?r) ?js (settled_state s p ?r)) ! q))"
        using old(1) ne by simp
      fix j assume "j \<in> set (waiters (refreshes (fold (resume ?r) ?js (settled_state s p ?r)) ! q))"
      then have j: "j \<in> set (waiters (refreshes s ! q))" using ne by simp
      then have state: "task_state (tasks s ! j) = AwaitingRefresh q" using old(2) by blast
      then have "j \<notin> set ?js" using js ne by auto
      then have "tasks (fold (resume ?r) ?js (settled_state s p ?r)) ! j = tasks s ! j"
        by (simp add: fold_resume_other)
      then show "task_state (tasks (fold (resume ?r) ?js (settled_state s p ?r)) ! j) = AwaitingRefresh q"
        using state by simp
    qed
  qed
next
  case Logout
  then show ?thesis using assms(1) by (simp add: step_def waiters_wait_def)
next
  case (Login email password)
  then show ?thesis using assms(1) by (simp add: step_def waiters_wait_def)
next
  case (LoginRespond rep)
  then show ?thesis
    using assms(1)
    by (auto simp: step_def waiters_wait_def on_login_response_def split: sum.splits)
qed


text \<open>A task that has gone on after a refresh does not await a refresh.\<close>

lemma resume_state:
  "i < length (tasks s) \<Longrightarrow> task_state (tasks (resume r i s) ! i) \<noteq> AwaitingRefresh q"
  using request_sync_state [of i s]
  by (cases r) (auto simp: resume_def)

lemma fold_resume_state:
  "j \<in> set js \<Longrightarrow> j < length (tasks u) \<Longrightarrow>
   task_state (tasks (fold (resume r) js u) ! j) \<noteq> AwaitingRefresh q"
proof (induction js arbitrary: u)
  case Nil
  then show ?case by simp
next
  case (Cons i js)
  show ?case
  proof (cases "j \<in> set js")
    case True
    then show ?thesis using Cons.IH [of "resume r i u"] Cons.prems by simp
  next
    case False
    then have "j = i" using Cons.prems by simp
    then show ?thesis
      using False resume_state [of i u r q] Cons.prems(2) by (simp add: fold_resume_other)
  qed
qed

lemma awaited_only_task:
  assumes "awaited_is_pending s" and "i < length (tasks s)"
      and "\<forall>q. task_state (tasks s' ! i) \<noteq> AwaitingRefresh q"
      and "refreshes s' = refreshes s" and "length (tasks s') = length (tasks s)"
      and "\<forall>j. j \<noteq> i \<longrightarrow> tasks s' ! j = tasks s ! j"
  shows "awaited_is_pending s'"
  unfolding awaited_is_pending_def
proof (intro allI impI)
  fix j q assume j: "j < length (tasks s')" "task_state (tasks s' ! j) = AwaitingRefresh q"
  then have "j \<noteq> i" using assms(3) by auto
  then have "task_state (tasks s ! j) = AwaitingRefresh q" using j assms(6) by simp
  then show "q < length (refreshes s') \<and> p_state (refreshes s' ! q) = Pending
             \<and> j \<in> set (waiters (refreshes s' ! q))"
    using assms(1,4,5) j(1) by (simp add: awaited_is_pending_def)
qed

lemma step_awaited_is_pending:
  assumes "awaited_is_pending s" and "waiters_wait s" and "stored_is_pending s"
  shows "awaited_is_pending (step s ev)"
proof (cases ev)
  case (Call endpoint options)
  let ?n = "length (tasks s)"
  let ?s0 = "s\<lparr>tasks := tasks s @ [\<lparr>task_endpoint = endpoint,
                                        task_options = default_options options,
                                        task_state = AwaitingResponse\<rparr>]\<rparr>"
  have eq: "step s ev = request_sync ?s0 ?n" using Call by (simp add: step_def)
  show ?thesis
    unfolding awaited_is_pending_def eq
  proof (intro allI impI)
    fix j q assume j: "j < length (tasks (request_sync ?s0 ?n))"
       "task_state (tasks (request_sync ?s0 ?n) ! j) = AwaitingRefresh q"
    have "j \<noteq> ?n" using request_sync_state [of ?n ?s0] j(2) by auto
    then have "j < length (tasks s)" and "tasks (request_sync ?s0 ?n) ! j = tasks s ! j"
      using j(1) by (simp_all add: nth_append)
    then show "q < length (refreshes (request_sync ?s0 ?n))
             \<and> p_state (refreshes (request_sync ?s0 ?n) ! q) = Pending
             \<and> j \<in> set (waiters (refreshes (request_sync ?s0 ?n) ! q))"
      using assms(1) j(2) by (simp add: awaited_is_pending_def)
  qed
next
  case (Respond i rep)
  show ?thesis
  proof (cases "i < length (tasks s) \<and> task_state (tasks s ! i) = AwaitingResponse")
    case False
    then show ?thesis using Respond assms by (auto simp: step_def)
  next
    case True
    then have eq: "step s ev = on_response s i rep" using Respond by (simp add: step_def)
    show ?thesis
    proof (cases "\<exists>reason b. rep = Answer 401 reason b")
      case False
      then have "refreshes (on_response s i rep) = refreshes s
               \<and> length (tasks (on_response s i rep)) = length (tasks s)
               \<and> (\<forall>q. task_state (tasks (on_response s i rep) ! i) \<noteq> AwaitingRefresh q)
               \<and> (\<forall>j. j \<noteq> i \<longrightarrow> tasks (on_response s i rep) ! j = tasks s ! j)"
        using True by (cases rep) (auto simp: on_response_def Let_def set_task_def)
      then show ?thesis
        using awaited_only_task [OF assms(1), of i "on_response s i rep"] True eq by simp
    next
      case unauthorized: True
      then obtain reason b where rep: "rep = Answer 401 reason b" by blast
      then have sync: "on_response s i rep = refreshToken_sync s i" by (simp add: on_response_def)
      show ?thesis
      proof (cases "refreshPromise s")
        case None
        then have shared: "step s ev = sharing s [i]"
          using first_unauthorized [OF None, of i reason b] True Respond rep by simp
        show ?thesis
          unfolding awaited_is_pending_def shared
        proof (intro allI impI)
          fix j q assume j: "j < length (tasks (sharing s [i]))"
             "task_state (tasks (sharing s [i]) ! j) = AwaitingRefresh q"
          show "q < length (refreshes (sharing s [i]))
              \<and> p_state (refreshes (sharing s [i]) ! q) = Pending
              \<and> j \<in> set (waiters (refreshes (sharing s [i]) ! q))"
          proof (cases "j = i")
            case True
            then have "q = length (refreshes s)" using j by (simp add: mark_waiting_def)
            then show ?thesis using True by simp
          next
            case False
            then have "task_state (tasks s ! j) = AwaitingRefresh q" and "j < length (tasks s)"
              using j by (simp_all add: mark_waiting_def)
            then have "q < length (refreshes s) \<and> p_state (refreshes s ! q) = Pending
                         \<and> j \<in> set (waiters (refreshes s ! q))"
              using assms(1) by (simp add: awaited_is_pending_def)
            then show ?thesis by (simp add: nth_append)
          qed
        qed
      next
        case (Some p)
        then have pending: "p < length (refreshes s)" "p_state (refreshes s ! p) = Pending"
          using assms(3) by (simp_all add: stored_is_pending_def)
        let ?s' = "set_task (s\<lparr>refreshes := (refreshes s)
                              [p := (refreshes s ! p)\<lparr>waiters := waiters (refreshes s ! p) @ [i]\<rparr>]\<rparr>)
                     i (AwaitingRefresh p)"
        have joined: "step s ev = ?s'"
          using eq sync Some pending by (simp add: refreshToken_sync_def join_refresh_def)
        show ?thesis
          unfolding awaited_is_pending_def joined
        proof (intro allI impI)
          fix j q assume j: "j < length (tasks ?s')" "task_state (tasks ?s' ! j) = AwaitingRefresh q"
          show "q < length (refreshes ?s') \<and> p_state (refreshes ?s' ! q) = Pending
              \<and> j \<in> set (waiters (refreshes ?s' ! q))"
          proof (cases "j = i")
            case True
            then have "q = p" using j True by simp
            then show ?thesis using True pending by simp
          next
            case False
            then have "task_state (tasks s ! j) = AwaitingRefresh q" and "j < length (tasks s)"
              using j by simp_all
            then have old: "q < length (refreshes s)" "p_state (refreshes s ! q) = Pending"
                "j \<in> set (waiters (refreshes s ! q))"
              using assms(1) by (simp_all add: awaited_is_pending_def)
            then show ?thesis by (cases "q = p") (simp_all add: join_update_state)
          qed
        qed
      qed
    qed
  qed
next
  case (RefreshRespond p rep)
  show ?thesis
  proof (cases "p < length (refreshes s) \<and> p_state (refreshes s ! p) = Pending")
    case False
    then show ?thesis using RefreshRespond assms by (auto simp: step_def)
  next
    case True
    let ?js = "waiters (refreshes s ! p)"
    let ?r = "refresh_outcome rep"
    let ?s' = "fold (resume ?r) ?js (settled_state s p ?r)"
    have eq: "step s ev = ?s'"
      using RefreshRespond True by (simp add: step_def on_refresh_response_eq)
    show ?thesis
      unfolding awaited_is_pending_def eq
    proof (intro allI impI)
      fix j q assume j: "j < length (tasks ?s')" "task_state (tasks ?s' ! j) = AwaitingRefresh q"
      then have len: "j < length (tasks (settled_state s p ?r))" by simp
      have out: "j \<notin> set ?js"
        using fold_resume_state [of j ?js "settled_state s p ?r" ?r q] len j(2) by blast
      then have "task_state (tasks s ! j) = AwaitingRefresh q"
        using j(2) by (simp add: fold_resume_other)
      then have old: "q < length (refreshes s)" "p_state (refreshes s ! q) = Pending"
          "j \<in> set (waiters (refreshes s ! q))"
        using assms(1) len by (simp_all add: awaited_is_pending_def)
      then have "q \<noteq> p" using out by auto
      then show "q < length (refreshes ?s') \<and> p_state (refreshes ?s' ! q) = Pending
              \<and> j \<in> set (waiters (refreshes ?s' ! q))"
        using old by simp
    qed
  qed
next
  case Logout
  then show ?thesis using assms(1) by (simp add: step_def awaited_is_pending_def)
next
  case (Login email password)
  then show ?thesis using assms(1) by (simp add: step_def awaited_is_pending_def)
next
  case (LoginRespond rep)
  then show ?thesis
    using assms(1)
    by (auto simp: step_def awaited_is_pending_def on_login_response_def split: sum.splits)
qed

text \<open>The properties hold together along every run of a new service.\<close>

lemma run_waiters_wait:
  "waiters_wait s \<Longrightarrow> waiting_readable s \<Longrightarrow> waiters_wait (run s evs)"
proof (induction evs rule: rev_induct)
  case Nil
  then show ?case by (simp add: run_def)
next
  case (snoc ev evs)
  then show ?case
    using step_waiters_wait [of "run s evs" ev] run_waiting_readable [of s evs]
    by (simp add: run_snoc)
qed

lemma run_awaited_is_pending:
  "awaited_is_pending s \<Longrightarrow> waiters_wait s \<Longrightarrow> waiting_readable s \<Longrightarrow> stored_is_pending s \<Longrightarrow>
   awaited_is_pending (run s evs)"
proof (induction evs rule: rev_induct)
  case Nil
  then show ?case by (simp add: run_def)
next
  case (snoc ev evs)
  then show ?case
    using step_awaited_is_pending [of "run s evs" ev] run_waiters_wait [of s evs]
          run_stored_is_pending [of s evs]
    by (simp add: run_snoc)
qed

lemma new_AuthAPI_waiting:
  "waiters_wait (new_AuthAPI url stored)" "awaited_is_pending (new_AuthAPI url stored)"
  by (simp_all add: new_AuthAPI_def waiters_wait_def awaited_is_pending_def)

text \<open>
  A task that awaits a refresh goes on awaiting it through every event but the response to
  that refresh.
\<close>

lemma step_keeps_waiting:
  assumes "waiters_wait s" and "i < length (tasks s)"
      and "task_state (tasks s ! i) = AwaitingRefresh p"
      and "\<forall>rep. ev \<noteq> RefreshRespond p rep"
  shows "task_state (tasks (step s ev) ! i) = AwaitingRefresh p"
proof (cases ev)
  case (Call endpoint options)
  then show ?thesis using assms(2,3) by (simp add: step_def nth_append)
next
  case (Respond j rep)
  show ?thesis
  proof (cases "j < length (tasks s) \<and> task_state (tasks s ! j) = AwaitingResponse")
    case False
    then show ?thesis using Respond assms(3) by (auto simp: step_def)
  next
    case True
    then have "j \<noteq> i" using assms(3) by auto
    then have "tasks (on_response s j rep) ! i = tasks s ! i"
      by (cases rep)
         (auto simp: on_response_def Let_def refreshToken_sync_def join_refresh_def resume_def
               split: option.splits promise_state.splits sum.splits)
    then show ?thesis using Respond True assms(3) by (simp add: step_def)
  qed
next
  case (RefreshRespond q rep)
  then have ne: "q \<noteq> p" using assms(4) by auto
  show ?thesis
  proof (cases "q < length (refreshes s) \<and> p_state (refreshes s ! q) = Pending")
    case False
    then show ?thesis using RefreshRespond assms(3) by (auto simp: step_def)
  next
    case True
    then have "\<forall>j \<in> set (waiters (refreshes s ! q)). task_state (tasks s ! j) = AwaitingRefresh q"
      using assms(1) by (simp add: waiters_wait_def)
    then have "i \<notin> set (waiters (refreshes s ! q))" using assms(3) ne by auto
    then show ?thesis
      using RefreshRespond True assms(3)
      by (simp add: step_def on_refresh_response_eq fold_resume_other)
  qed
next
  case Logout
  then show ?thesis using assms(3) by (simp add: step_def)
next
  case (Login email password)
  then show ?thesis using assms(3) by (simp add: step_def)
next
  case (LoginRespond rep)
  then show ?thesis
    using assms(3) by (auto simp: step_def on_login_response_def split: sum.splits)
qed



lemma to_string_held:
  "to_string (if truthy tok then tok else JStr (to_string tok)) = to_string tok"
  by simp






lemma refresh_outcome_new_token: "refresh_outcome (new_token t) = Inr (JStr t)"
  by (simp add: refresh_outcome_def new_token_def ok_def response_json_def json_body_def)

text \<open>
  A 401 for a task of a service in which the stored promise is pending: the task comes to
  await a pending refresh, the one stored or a new one.
\<close>

lemma unauthorized_awaits:
  assumes "stored_is_pending s" and "i < length (tasks s)"
      and "task_state (tasks s ! i) = AwaitingResponse"
  shows "\<exists>p. task_state (tasks (step s (Respond i (Answer 401 reason b))) ! i) = AwaitingRefresh p
            \<and> p < length (refreshes (step s (Respond i (Answer 401 reason b))))
            \<and> p_state (refreshes (step s (Respond i (Answer 401 reason b))) ! p) = Pending
            \<and> i \<in> set (waiters (refreshes (step s (Respond i (Answer 401 reason b))) ! p))"
proof (cases "refreshPromise s")
  case None
  have "step s (Respond i (Answer 401 reason b)) = sharing s [i]"
    using first_unauthorized [OF None assms(2,3)] .
  then show ?thesis using assms(2) by (simp add: mark_waiting_def)
next
  case (Some p)
  then have p: "p < length (refreshes s)" "p_state (refreshes s ! p) = Pending"
    using assms(1) by (simp_all add: stored_is_pending_def)
  have "step s (Respond i (Answer 401 reason b))
          = set_task (s\<lparr>refreshes := (refreshes s)
                          [p := (refreshes s ! p)\<lparr>waiters := waiters (refreshes s ! p) @ [i]\<rparr>]\<rparr>)
              i (AwaitingRefresh p)"
    using assms(2,3) Some p
    by (simp add: step_def on_response_def Let_def refreshToken_sync_def join_refresh_def)
  then show ?thesis using assms(2) p by simp
qed

text \<open>
  One round: the request of the task is answered 401 while no refresh is stored, and the
  refresh succeeds. The task has sent its request again and the service is as before, with
  one more refresh behind it.
\<close>

lemma one_cycle:
  assumes "refreshPromise s = None" and "i < length (tasks s)"
      and "task_state (tasks s ! i) = AwaitingResponse"
      and "readable (task_options (tasks s ! i))" and "t \<noteq> []"
  shows "refreshPromise (run s [Respond i unauthorized,
                                RefreshRespond (length (refreshes s)) (new_token t)]) = None"
    and "length (tasks (run s [Respond i unauthorized,
                               RefreshRespond (length (refreshes s)) (new_token t)]))
           = length (tasks s)"
    and "task_state (tasks (run s [Respond i unauthorized,
                                   RefreshRespond (length (refreshes s)) (new_token t)]) ! i)
           = AwaitingResponse"
    and "task_options (tasks (run s [Respond i unauthorized,
                                     RefreshRespond (length (refreshes s)) (new_token t)]) ! i)
           = task_options (tasks s ! i)"
    and "length (refreshes (run s [Respond i unauthorized,
                                   RefreshRespond (length (refreshes s)) (new_token t)]))
           = length (refreshes s) + 1"
    and "sent (run s [Respond i unauthorized,
                      RefreshRespond (length (refreshes s)) (new_token t)])
           = sent s @ [(baseURL s @ ''/auth/refresh'', refresh_init s), request_of s (JStr t) i]"
    and "token (run s [Respond i unauthorized,
                       RefreshRespond (length (refreshes s)) (new_token t)]) = JStr t"
proof -
  let ?s2 = "run s [Respond i unauthorized, RefreshRespond (length (refreshes s)) (new_token t)]"
  have eq: "?s2 = step (sharing s [i]) (RefreshRespond (length (refreshes s)) (new_token t))"
    using first_unauthorized [OF assms(1,2,3), of "''Unauthorized''" empty_body]
    by (simp add: run_def unauthorized_def)
  have tr: "truthy (JStr t)" using assms(5) by simp
  have ready: "\<forall>j \<in> set [i]. j < length (tasks s) \<and> readable (task_options (tasks s ! j))"
    using assms(2,4) by simp
  note good = shared_refresh_succeeds [OF refresh_outcome_new_token tr _ ready]
  have folded: "?s2 = fold (resume (Inr (JStr t))) [i]
                        (settled_state (sharing s [i]) (length (refreshes s)) (Inr (JStr t)))"
    using eq sharing_settles [of s "[i]" "new_token t"] by (simp add: refresh_outcome_new_token)
  show "refreshPromise ?s2 = None" using good(3) eq by simp
  show "length (tasks ?s2) = length (tasks s)" unfolding folded by simp
  show "task_state (tasks ?s2 ! i) = AwaitingResponse" using good(6) eq by simp
  show "task_options (tasks ?s2 ! i) = task_options (tasks s ! i)" unfolding folded by simp
  show "length (refreshes ?s2) = length (refreshes s) + 1" using good(4) eq by simp
  show "sent ?s2 = sent s @ [(baseURL s @ ''/auth/refresh'', refresh_init s), request_of s (JStr t) i]"
    using good(5) eq by simp
  show "token ?s2 = JStr t" using good(1) eq by simp
qed

lemma cycles_run:
  assumes "refreshPromise s = None" and "i < length (tasks s)"
      and "task_state (tasks s ! i) = AwaitingResponse"
      and "readable (task_options (tasks s ! i))" and "t \<noteq> []"
  shows "task_state (tasks (run s (cycles i (length (refreshes s)) t n)) ! i) = AwaitingResponse
       \<and> length (refreshes (run s (cycles i (length (refreshes s)) t n))) = length (refreshes s) + n
       \<and> length (sent (run s (cycles i (length (refreshes s)) t n))) = length (sent s) + 2 * n"
  using assms
proof (induction n arbitrary: s)
  case 0
  then show ?case by (simp add: run_def)
next
  case (Suc n)
  let ?s2 = "run s [Respond i unauthorized, RefreshRespond (length (refreshes s)) (new_token t)]"
  note c = one_cycle [OF Suc.prems]
  have rd: "readable (task_options (tasks ?s2 ! i))" using c(4) Suc.prems(4) by simp
  have i2: "i < length (tasks ?s2)" using c(2) Suc.prems(2) by simp
  note ih = Suc.IH [OF c(1) i2 c(3) rd Suc.prems(5)]
  have eq: "run s (cycles i (length (refreshes s)) t (Suc n))
              = run ?s2 (cycles i (length (refreshes ?s2)) t n)"
    using c(5) by (simp add: run_def)
  show ?case
    unfolding eq using ih c(5,6) by simp
qed

text \<open>
  C7, as stated, fails: \<open>_request\<close> calls itself after every refresh, with no count of the
  rounds. One logical call whose request is answered 401 twice goes through two refreshes
  and sends its request three times.
\<close>

theorem one_redispatch_counterexample:
  "length (tasks (run service (Call ''/profile'' JUndefined # cycles 0 0 ''t1'' 2))) = 1
   \<and> length (refreshes (run service (Call ''/profile'' JUndefined # cycles 0 0 ''t1'' 2))) = 2
   \<and> map fst (sent (run service (Call ''/profile'' JUndefined # cycles 0 0 ''t1'' 2)))
       = [''https://api.example.com/profile'', ''https://api.example.com/auth/refresh'',
          ''https://api.example.com/profile'', ''https://api.example.com/auth/refresh'',
          ''https://api.example.com/profile'']"
  by code_simp

text \<open>
  C7, amended, for \<open>_request\<close> of Solution 3.1. A 401 is never handed to the caller: the
  task whose request is answered 401 comes to await a pending refresh. A task that awaits a
  refresh awaits a pending one, is among its waiters once, and goes on awaiting it through
  every event but the response to that refresh. When the refresh succeeds, the task sends
  its request again, once, with the token that \<open>_request\<close> then holds (the new token, or
  the string kept in storage when the new token is falsy); when the refresh fails, the task
  settles with the error of the refresh and sends nothing. The task that has sent its
  request again is as any other: this repeats for every further 401, with no bound on the
  number of rounds within one logical call: after \<open>n\<close> rounds the service has started
  \<open>n\<close> refreshes and sent \<open>2 * n\<close> requests, and the task awaits a response again.
\<close>

theorem unauthorized_refreshes:
  assumes "s = run (new_AuthAPI url stored) evs" and "i < length (tasks s)"
  shows "(task_state (tasks s ! i) = AwaitingResponse \<longrightarrow>
            (\<exists>p. task_state (tasks (step s (Respond i (Answer 401 reason b))) ! i) = AwaitingRefresh p
               \<and> p < length (refreshes (step s (Respond i (Answer 401 reason b))))
               \<and> p_state (refreshes (step s (Respond i (Answer 401 reason b))) ! p) = Pending
               \<and> i \<in> set (waiters (refreshes (step s (Respond i (Answer 401 reason b))) ! p))))
       \<and> (\<forall>p. task_state (tasks s ! i) = AwaitingRefresh p \<longrightarrow>
            p < length (refreshes s) \<and> p_state (refreshes s ! p) = Pending
          \<and> distinct (waiters (refreshes s ! p)) \<and> i \<in> set (waiters (refreshes s ! p))
          \<and> (\<forall>ev. (\<forall>rep. ev \<noteq> RefreshRespond p rep) \<longrightarrow>
                 task_state (tasks (step s ev) ! i) = AwaitingRefresh p)
          \<and> (\<forall>rep tok. refresh_outcome rep = Inr tok \<longrightarrow>
                 (let s2 = step s (RefreshRespond p rep);
                      held = (if truthy tok then tok else JStr (to_string tok))
                  in task_state (tasks s2 ! i) = AwaitingResponse
                   \<and> sent s2 = sent s @ map (request_of s held) (waiters (refreshes s ! p))
                   \<and> (truthy held \<longrightarrow>
                        authorization_of (snd (request_of s held i))
                          = JStr (''Bearer '' @ to_string tok))))
          \<and> (\<forall>rep e. refresh_outcome rep = Inl e \<longrightarrow>
                 task_state (tasks (step s (RefreshRespond p rep)) ! i) = Settled (Inl e)
               \<and> sent (step s (RefreshRespond p rep)) = sent s))
       \<and> (task_state (tasks s ! i) = AwaitingResponse \<and> refreshPromise s = None \<longrightarrow>
            (\<forall>t n. t \<noteq> [] \<longrightarrow>
               task_state (tasks (run s (cycles i (length (refreshes s)) t n)) ! i) = AwaitingResponse
             \<and> length (refreshes (run s (cycles i (length (refreshes s)) t n)))
                 = length (refreshes s) + n
             \<and> length (sent (run s (cycles i (length (refreshes s)) t n)))
                 = length (sent s) + 2 * n))"
proof -
  have pending: "stored_is_pending s"
    using run_stored_is_pending [OF new_AuthAPI_invariant(1)] assms(1) by simp
  have rds: "waiting_readable s"
    using run_waiting_readable [OF new_AuthAPI_invariant(3)] assms(1) by simp
  have ww: "waiters_wait s"
    using run_waiters_wait [OF new_AuthAPI_waiting(1) new_AuthAPI_invariant(3)] assms(1) by simp
  have aw: "awaited_is_pending s"
    using run_awaited_is_pending [OF new_AuthAPI_waiting(2,1) new_AuthAPI_invariant(3,1)] assms(1)
    by simp
  have awaits: "\<exists>p. task_state (tasks (step s (Respond i (Answer 401 reason b))) ! i) = AwaitingRefresh p
               \<and> p < length (refreshes (step s (Respond i (Answer 401 reason b))))
               \<and> p_state (refreshes (step s (Respond i (Answer 401 reason b))) ! p) = Pending
               \<and> i \<in> set (waiters (refreshes (step s (Respond i (Answer 401 reason b))) ! p))"
    if "task_state (tasks s ! i) = AwaitingResponse"
    using unauthorized_awaits [OF pending assms(2) that] .
  have waits: "p < length (refreshes s) \<and> p_state (refreshes s ! p) = Pending
          \<and> distinct (waiters (refreshes s ! p)) \<and> i \<in> set (waiters (refreshes s ! p))
          \<and> (\<forall>ev. (\<forall>rep. ev \<noteq> RefreshRespond p rep) \<longrightarrow>
                 task_state (tasks (step s ev) ! i) = AwaitingRefresh p)
          \<and> (\<forall>rep tok. refresh_outcome rep = Inr tok \<longrightarrow>
                 (let s2 = step s (RefreshRespond p rep);
                      held = (if truthy tok then tok else JStr (to_string tok))
                  in task_state (tasks s2 ! i) = AwaitingResponse
                   \<and> sent s2 = sent s @ map (request_of s held) (waiters (refreshes s ! p))
                   \<and> (truthy held \<longrightarrow>
                        authorization_of (snd (request_of s held i))
                          = JStr (''Bearer '' @ to_string tok))))
          \<and> (\<forall>rep e. refresh_outcome rep = Inl e \<longrightarrow>
                 task_state (tasks (step s (RefreshRespond p rep)) ! i) = Settled (Inl e)
               \<and> sent (step s (RefreshRespond p rep)) = sent s)"
    if st: "task_state (tasks s ! i) = AwaitingRefresh p" for p
  proof -
    have p: "p < length (refreshes s)" "p_state (refreshes s ! p) = Pending"
        and mem: "i \<in> set (waiters (refreshes s ! p))"
      using aw assms(2) st by (simp_all add: awaited_is_pending_def)
    have dist: "distinct (waiters (refreshes s ! p))"
      using ww p by (simp add: waiters_wait_def)
    have ready: "\<forall>j \<in> set (waiters (refreshes s ! p)).
                   j < length (tasks s) \<and> readable (task_options (tasks s ! j))"
      using rds p(1) by (simp add: waiting_readable_def)
    have keeps: "\<forall>ev. (\<forall>rep. ev \<noteq> RefreshRespond p rep) \<longrightarrow>
                 task_state (tasks (step s ev) ! i) = AwaitingRefresh p"
      using step_keeps_waiting [OF ww assms(2) st] by blast
    have success: "\<forall>rep tok. refresh_outcome rep = Inr tok \<longrightarrow>
                 (let s2 = step s (RefreshRespond p rep);
                      held = (if truthy tok then tok else JStr (to_string tok))
                  in task_state (tasks s2 ! i) = AwaitingResponse
                   \<and> sent s2 = sent s @ map (request_of s held) (waiters (refreshes s ! p))
                   \<and> (truthy held \<longrightarrow>
                        authorization_of (snd (request_of s held i))
                          = JStr (''Bearer '' @ to_string tok)))"
    proof (intro allI impI)
      fix rep tok assume out: "refresh_outcome rep = Inr tok"
      let ?held = "if truthy tok then tok else JStr (to_string tok)"
      note good = refresh_settles_success [OF p out dist ready]
      have header: "truthy ?held \<longrightarrow>
                      authorization_of (snd (request_of s ?held i)) = JStr (''Bearer '' @ to_string tok)"
      proof
        assume tr: "truthy ?held"
        have "readable (task_options (tasks s ! i))" using ready mem by blast
        then obtain init where init: "request_init ?held (task_options (tasks s ! i)) = Inr init"
          using request_init_readable by blast
        have "authorization_of init = JStr (''Bearer '' @ to_string ?held)"
          using request_init_authorization [OF init tr] .
        then show "authorization_of (snd (request_of s ?held i)) = JStr (''Bearer '' @ to_string tok)"
          using init to_string_held [of tok] by (simp add: request_of_def)
      qed
      show "let s2 = step s (RefreshRespond p rep);
                held = (if truthy tok then tok else JStr (to_string tok))
            in task_state (tasks s2 ! i) = AwaitingResponse
             \<and> sent s2 = sent s @ map (request_of s held) (waiters (refreshes s ! p))
             \<and> (truthy held \<longrightarrow>
                  authorization_of (snd (request_of s held i))
                    = JStr (''Bearer '' @ to_string tok))"
        unfolding Let_def using good(1,5) mem header by blast
    qed
    have failure: "\<forall>rep e. refresh_outcome rep = Inl e \<longrightarrow>
                 task_state (tasks (step s (RefreshRespond p rep)) ! i) = Settled (Inl e)
               \<and> sent (step s (RefreshRespond p rep)) = sent s"
    proof (intro allI impI)
      fix rep e assume out: "refresh_outcome rep = Inl e"
      have range: "\<forall>j \<in> set (waiters (refreshes s ! p)). j < length (tasks s)"
        using ready by blast
      note bad = refresh_settles_failure [OF p out range]
      show "task_state (tasks (step s (RefreshRespond p rep)) ! i) = Settled (Inl e)
               \<and> sent (step s (RefreshRespond p rep)) = sent s"
        using bad(4,5) mem by blast
    qed
    show ?thesis using p dist mem keeps success failure by blast
  qed
  have rounds: "\<forall>t n. t \<noteq> [] \<longrightarrow>
               task_state (tasks (run s (cycles i (length (refreshes s)) t n)) ! i) = AwaitingResponse
             \<and> length (refreshes (run s (cycles i (length (refreshes s)) t n)))
                 = length (refreshes s) + n
             \<and> length (sent (run s (cycles i (length (refreshes s)) t n)))
                 = length (sent s) + 2 * n"
    if st: "task_state (tasks s ! i) = AwaitingResponse" and none: "refreshPromise s = None"
  proof (intro allI impI)
    fix t :: string and n assume t: "t \<noteq> []"
    have rd: "readable (task_options (tasks s ! i))"
      using rds assms(2) st by (simp add: waiting_readable_def)
    show "task_state (tasks (run s (cycles i (length (refreshes s)) t n)) ! i) = AwaitingResponse
             \<and> length (refreshes (run s (cycles i (length (refreshes s)) t n)))
                 = length (refreshes s) + n
             \<and> length (sent (run s (cycles i (length (refreshes s)) t n)))
                 = length (sent s) + 2 * n"
      using cycles_run [OF none assms(2) st rd t] .
  qed
  show ?thesis using awaits waits rounds by blast
qed

theorem unauthorized_refreshes_witness:
  "0 < length (tasks (run service [Call ''/profile'' JUndefined]))
   \<and> task_state (tasks (run service [Call ''/profile'' JUndefined]) ! 0) = AwaitingResponse
   \<and> refreshPromise (run service [Call ''/profile'' JUndefined]) = None
   \<and> task_state (tasks (run service [Call ''/profile'' JUndefined, Respond 0 unauthorized]) ! 0)
       = AwaitingRefresh 0
   \<and> task_state (tasks (run service [Call ''/profile'' JUndefined, Respond 0 unauthorized,
                                      Logout]) ! 0)
       = AwaitingRefresh 0
   \<and> refresh_outcome (new_token ''t1'') = Inr (JStr ''t1'') \<and> truthy (JStr ''t1'')
   \<and> task_state (tasks (run service [Call ''/profile'' JUndefined, Respond 0 unauthorized,
                                      RefreshRespond 0 (new_token ''t1'')]) ! 0)
       = AwaitingResponse
   \<and> map fst (sent (run service [Call ''/profile'' JUndefined, Respond 0 unauthorized,
                                  RefreshRespond 0 (new_token ''t1'')]))
       = [''https://api.example.com/profile'', ''https://api.example.com/auth/refresh'',
          ''https://api.example.com/profile'']
   \<and> authorization_of (snd (request_of (run service [Call ''/profile'' JUndefined,
                                                        Respond 0 unauthorized]) (JStr ''t1'') 0))
       = JStr ''Bearer t1''
   \<and> refresh_outcome refresh_denied = Inl (Err ''Error'' ''Token refresh failed'')
   \<and> task_state (tasks (run service [Call ''/profile'' JUndefined, Respond 0 unauthorized,
                                      RefreshRespond 0 refresh_denied]) ! 0)
       = Settled (Inl (Err ''Error'' ''Token refresh failed''))
   \<and> length (refreshes (run service (Call ''/profile'' JUndefined # cycles 0 0 ''t1'' 3))) = 3
   \<and> length (sent (run service (Call ''/profile'' JUndefined # cycles 0 0 ''t1'' 3))) = 7
   \<and> task_state (tasks (run service (Call ''/profile'' JUndefined # cycles 0 0 ''t1'' 3)) ! 0)
       = AwaitingResponse"
proof -
  let ?s = "run service [Call ''/profile'' JUndefined]"
  let ?u = "run service [Call ''/profile'' JUndefined, Respond 0 unauthorized]"
  have h1: "?s = run (new_AuthAPI ''https://api.example.com'' (JStr ''t0'')) [Call ''/profile'' JUndefined]"
    by (simp add: service_def)
  have h2: "0 < length (tasks ?s)" by code_simp
  have st: "task_state (tasks ?s ! 0) = AwaitingResponse" by code_simp
  have none: "refreshPromise ?s = None" by code_simp
  have k1: "?u = run (new_AuthAPI ''https://api.example.com'' (JStr ''t0''))
                   [Call ''/profile'' JUndefined, Respond 0 unauthorized]"
    by (simp add: service_def)
  have k2: "0 < length (tasks ?u)" by code_simp
  note first = unauthorized_refreshes [OF h1 h2, where reason = "''Unauthorized''" and b = empty_body]
  note later = unauthorized_refreshes [OF k1 k2, where reason = "''Unauthorized''" and b = empty_body]
  have step_u: "step ?s (Respond 0 (Answer 401 ''Unauthorized'' empty_body)) = ?u"
    by (simp add: run_def unauthorized_def)
  have zero: "length (refreshes ?s) = 0" "length (sent ?s) = 1" by code_simp+
  have one: "length (refreshes ?u) = 1" by code_simp
  from first st obtain p where p: "task_state (tasks ?u ! 0) = AwaitingRefresh p"
      and "p < length (refreshes ?u)"
    unfolding step_u by blast
  then have p0: "p = 0" using one by simp
  have waiting: "task_state (tasks ?u ! 0) = AwaitingRefresh 0" using p p0 by simp
  note await = later [THEN conjunct2, THEN conjunct1, rule_format, OF waiting]
  have good: "refresh_outcome (new_token ''t1'') = Inr (JStr ''t1'')"
    by (simp add: refresh_outcome_new_token)
  have bad: "refresh_outcome refresh_denied = Inl (Err ''Error'' ''Token refresh failed'')"
    by (simp add: refresh_outcome_def refresh_denied_def ok_def)
  have keeps: "task_state (tasks (step ?u Logout) ! 0) = AwaitingRefresh 0"
    using await by blast
  have success: "task_state (tasks (step ?u (RefreshRespond 0 (new_token ''t1''))) ! 0) = AwaitingResponse
      \<and> (truthy (JStr ''t1'') \<longrightarrow>
           authorization_of (snd (request_of ?u (JStr ''t1'') 0)) = JStr (''Bearer '' @ to_string (JStr ''t1'')))"
  proof -
    from await have "\<forall>rep tok. refresh_outcome rep = Inr tok \<longrightarrow>
                 (let s2 = step ?u (RefreshRespond 0 rep);
                      held = (if truthy tok then tok else JStr (to_string tok))
                  in task_state (tasks s2 ! 0) = AwaitingResponse
                   \<and> sent s2 = sent ?u @ map (request_of ?u held) (waiters (refreshes ?u ! 0))
                   \<and> (truthy held \<longrightarrow>
                        authorization_of (snd (request_of ?u held 0))
                          = JStr (''Bearer '' @ to_string tok)))"
      by blast
    then have "let s2 = step ?u (RefreshRespond 0 (new_token ''t1''));
                      held = (if truthy (JStr ''t1'') then JStr ''t1'' else JStr (to_string (JStr ''t1'')))
                  in task_state (tasks s2 ! 0) = AwaitingResponse
                   \<and> sent s2 = sent ?u @ map (request_of ?u held) (waiters (refreshes ?u ! 0))
                   \<and> (truthy held \<longrightarrow>
                        authorization_of (snd (request_of ?u held 0))
                          = JStr (''Bearer '' @ to_string (JStr ''t1'')))"
      using good by blast
    then show ?thesis unfolding Let_def by simp
  qed
  have failure: "task_state (tasks (step ?u (RefreshRespond 0 refresh_denied)) ! 0)
                   = Settled (Inl (Err ''Error'' ''Token refresh failed''))"
    using await bad by blast
  have rounds: "task_state (tasks (run ?s (cycles 0 (length (refreshes ?s)) ''t1'' 3)) ! 0) = AwaitingResponse
             \<and> length (refreshes (run ?s (cycles 0 (length (refreshes ?s)) ''t1'' 3)))
                 = length (refreshes ?s) + 3
             \<and> length (sent (run ?s (cycles 0 (length (refreshes ?s)) ''t1'' 3)))
                 = length (sent ?s) + 2 * 3"
  proof -
    have ne: "''t1'' \<noteq> []" by simp
    from first st none have "\<forall>t n. t \<noteq> [] \<longrightarrow>
               task_state (tasks (run ?s (cycles 0 (length (refreshes ?s)) t n)) ! 0) = AwaitingResponse
             \<and> length (refreshes (run ?s (cycles 0 (length (refreshes ?s)) t n)))
                 = length (refreshes ?s) + n
             \<and> length (sent (run ?s (cycles 0 (length (refreshes ?s)) t n)))
                 = length (sent ?s) + 2 * n"
      by blast
    then show ?thesis using ne by blast
  qed
  have run_eq: "run ?s (cycles 0 (length (refreshes ?s)) ''t1'' 3)
                  = run service (Call ''/profile'' JUndefined # cycles 0 0 ''t1'' 3)"
    using zero(1) by (simp add: run_def)
  have e1: "step ?u Logout = run service [Call ''/profile'' JUndefined, Respond 0 unauthorized, Logout]"
    by (simp add: run_def)
  have e2: "step ?u (RefreshRespond 0 (new_token ''t1''))
              = run service [Call ''/profile'' JUndefined, Respond 0 unauthorized,
                             RefreshRespond 0 (new_token ''t1'')]"
    by (simp add: run_def)
  have e3: "step ?u (RefreshRespond 0 refresh_denied)
              = run service [Call ''/profile'' JUndefined, Respond 0 unauthorized,
                             RefreshRespond 0 refresh_denied]"
    by (simp add: run_def)
  have urls: "map fst (sent (run service [Call ''/profile'' JUndefined, Respond 0 unauthorized,
                                  RefreshRespond 0 (new_token ''t1'')]))
       = [''https://api.example.com/profile'', ''https://api.example.com/auth/refresh'',
          ''https://api.example.com/profile'']"
    by code_simp
  have tr: "truthy (JStr ''t1'')" by simp
  have header: "authorization_of (snd (request_of ?u (JStr ''t1'') 0)) = JStr ''Bearer t1''"
    using success tr by simp
  note f1 = keeps [unfolded e1]
  note f2 = success [THEN conjunct1, unfolded e2]
  note f3 = failure [unfolded e3]
  note f4 = rounds [unfolded run_eq]
  have f5: "length (refreshes (run service (Call ''/profile'' JUndefined # cycles 0 0 ''t1'' 3))) = 3"
    using f4 zero by simp
  have f6: "length (sent (run service (Call ''/profile'' JUndefined # cycles 0 0 ''t1'' 3))) = 7"
    using f4 zero by simp
  show ?thesis
    using h2 st none waiting f1 good tr f2 urls header bad f3 f5 f6 f4 by blast
qed

text \<open>
  \<open>request\<close> of the cheat sheet calls \<open>fetch\<close> once at most, and a 401 ends it with the
  \<open>TypeError\<close> of the undefined method: no refresh, no second request.
\<close>

lemma AuthAPI_request_one_call:
  "length (calls (snd (AuthAPI_request net w base tok endpoint options))) \<le> length (calls w) + 1"
proof (cases "request_init tok (default_options options)")
  case (Inl e)
  then show ?thesis by (simp add: AuthAPI_request_def)
next
  case (Inr init)
  obtain r w' where f: "fetch_js net w (base @ endpoint) init = (r, w')" by force
  then have "calls w' = calls w @ [(base @ endpoint, init)]"
    using fetch_js_calls [of net w "base @ endpoint" init] by simp
  then show ?thesis using Inr f by (auto simp: AuthAPI_request_def split: sum.splits)
qed

lemma AuthAPI_request_unauthorized:
  "AuthAPI_request always_401 fresh_world ''https://api.example.com'' (JStr ''t0'') ''/profile'' JUndefined
     = (Inl (Err ''TypeError'' ''this.refreshToken is not a function''),
        \<lparr>calls = [(''https://api.example.com/profile'',
                    JObj [(''headers'', JObj [(''Content-Type'', JStr ''application/json''),
                                             (''Authorization'', JStr ''Bearer t0'')])])],
         now = 20, sleeps = []\<rparr>)"
  by code_simp


end
